theory Spec2Isabelle
  imports Complex_Main
begin

section \<open>Results of a call\<close>

text \<open>
  A Python call either returns, or raises an exception that nothing in the repository
  catches, or does not finish. \<open>Unfinished\<close> is the value of a run that the given random
  draws and loop budget do not carry to its end.
\<close>

datatype error = IndexError | ValueError | AttributeError

datatype 'a outcome = Return 'a | Raise error | Unfinished

fun obind :: "'a outcome \<Rightarrow> ('a \<Rightarrow> 'b outcome) \<Rightarrow> 'b outcome" where
  "obind (Return x) f = f x"
| "obind (Raise e) f = Raise e"
| "obind Unfinished f = Unfinished"

text \<open>Subscript read \<open>xs[i]\<close> and subscript write \<open>xs[i] = v\<close> at an index \<open>i \<ge> 0\<close>.\<close>

definition getItem :: "'a list \<Rightarrow> nat \<Rightarrow> 'a outcome" where
  "getItem xs i = (if i < length xs then Return (xs ! i) else Raise IndexError)"

definition setItem :: "'a list \<Rightarrow> nat \<Rightarrow> 'a \<Rightarrow> 'a list outcome" where
  "setItem xs i v = (if i < length xs then Return (xs[i := v]) else Raise IndexError)"

section \<open>The random source\<close>

text \<open>
  The module-level generator of Python's \<open>random\<close> is an explicit list of draws, consumed
  from the front. \<open>random.random()\<close> yields a float in \<open>[0, 1)\<close> (floats are compared
  only, so a rational stands for each), \<open>random.randint(a, b)\<close> an integer in \<open>[a, b]\<close>,
  and \<open>random.sample(population, k)\<close> the positions of \<open>k\<close> distinct entries of the
  population. A draw of another kind or out of range describes no run.
\<close>

datatype draw = DFloat rat | DInt int | DSample "nat list"

type_synonym rng = "draw list"

definition random_random :: "rng \<Rightarrow> (rat \<times> rng) outcome" where
  "random_random g =
     (case g of
        DFloat r # g' \<Rightarrow> if 0 \<le> r \<and> r < 1 then Return (r, g') else Unfinished
      | _ \<Rightarrow> Unfinished)"

definition randint :: "int \<Rightarrow> int \<Rightarrow> rng \<Rightarrow> (int \<times> rng) outcome" where
  "randint a b g =
     (if b < a then Raise ValueError
      else case g of
        DInt r # g' \<Rightarrow> if a \<le> r \<and> r \<le> b then Return (r, g') else Unfinished
      | _ \<Rightarrow> Unfinished)"

definition sample :: "nat \<Rightarrow> int \<Rightarrow> rng \<Rightarrow> (nat list \<times> rng) outcome" where
  "sample n k g =
     (if k < 0 \<or> int n < k then Raise ValueError
      else case g of
        DSample js # g' \<Rightarrow>
          if int (length js) = k \<and> distinct js \<and> list_all (\<lambda>j. j < n) js
          then Return (js, g') else Unfinished
      | _ \<Rightarrow> Unfinished)"

section \<open>Conformation.py\<close>

definition FORWARD :: int where "FORWARD = 0"
definition LEFT :: int where "LEFT = - 1"
definition RIGHT :: int where "RIGHT = 1"

type_synonym point = "int \<times> int"

text \<open>
  The attributes of a \<open>Conformation\<close>. \<open>protein\<close> is the sequence of the \<open>Protein\<close>
  object, or \<open>None\<close>. \<open>setOfPoints\<close> is either \<open>None\<close> or a reference to a set that
  the caller shares among all its conformations: the field records whether the reference
  is present, and the set itself is passed to and returned by every method that writes it.
  \<open>length_c\<close> is the attribute \<open>length\<close>.
\<close>

record conformation =
  protein :: "string option"
  setOfPoints :: bool
  length_c :: nat
  encoding :: "int list"
  absPositions :: "point list"
  fitness :: int
  generation :: int
  validState :: bool

text \<open>\<open>self.protein.getNth(i)\<close>, and \<open>protein.getLength() if protein else 0\<close>.\<close>

definition getNth :: "string option \<Rightarrow> nat \<Rightarrow> char outcome" where
  "getNth p i = (case p of None \<Rightarrow> Raise AttributeError | Some s \<Rightarrow> getItem s i)"

definition getLength :: "string option \<Rightarrow> nat" where
  "getLength p = (case p of None \<Rightarrow> 0 | Some s \<Rightarrow> length s)"

subsection \<open>calcAbsolutePositions\<close>

text \<open>
  The body of the loop before the write: the branch on \<open>lastDirection\<close> (0 up, 1 down,
  2 right, 3 left) and on the symbol \<open>d\<close>. A symbol that is none of the three constants
  changes nothing.
\<close>

definition calcAbsolutePositions_step :: "nat \<Rightarrow> int \<Rightarrow> int \<Rightarrow> int \<Rightarrow> int \<times> int \<times> nat" where
  "calcAbsolutePositions_step lastDirection d x y =
     (if lastDirection = 0 then
        (if d = FORWARD then (x, y + 1, lastDirection)
         else if d = RIGHT then (x + 1, y, 2)
         else if d = LEFT then (x - 1, y, 3)
         else (x, y, lastDirection))
      else if lastDirection = 1 then
        (if d = FORWARD then (x, y - 1, lastDirection)
         else if d = RIGHT then (x - 1, y, 3)
         else if d = LEFT then (x + 1, y, 2)
         else (x, y, lastDirection))
      else if lastDirection = 2 then
        (if d = FORWARD then (x + 1, y, lastDirection)
         else if d = RIGHT then (x, y - 1, 1)
         else if d = LEFT then (x, y + 1, 0)
         else (x, y, lastDirection))
      else if lastDirection = 3 then
        (if d = FORWARD then (x - 1, y, lastDirection)
         else if d = RIGHT then (x, y + 1, 0)
         else if d = LEFT then (x, y - 1, 1)
         else (x, y, lastDirection))
      else (x, y, lastDirection))"

text \<open>\<open>for i in range(self.length - 2)\<close>: read \<open>encoding[i]\<close>, move, write \<open>absPositions[i + 2]\<close>.\<close>

fun calcAbsolutePositions_loop ::
  "nat list \<Rightarrow> int list \<Rightarrow> int \<Rightarrow> int \<Rightarrow> nat \<Rightarrow> point list \<Rightarrow> point list outcome" where
  "calcAbsolutePositions_loop [] enc x y lastDirection ps = Return ps"
| "calcAbsolutePositions_loop (i # is) enc x y lastDirection ps =
     obind (getItem enc i) (\<lambda>d.
       case calcAbsolutePositions_step lastDirection d x y of
         (x', y', lastDirection') \<Rightarrow>
           obind (setItem ps (i + 2) (x', y'))
             (\<lambda>ps'. calcAbsolutePositions_loop is enc x' y' lastDirection' ps'))"

text \<open>
  The list starts as \<open>[None] * self.length\<close>. Every index is written before the method
  returns and a raise leaves no object behind, so the placeholder is never read; the
  model fills the fresh list with \<open>(0, 0)\<close>.
\<close>

definition calcAbsolutePositions :: "conformation \<Rightarrow> conformation outcome" where
  "calcAbsolutePositions c =
     obind (setItem (replicate (length_c c) (0, 0)) 0 (0, 0)) (\<lambda>ps0.
     obind (setItem ps0 1 (0, 1)) (\<lambda>ps1.
     obind (calcAbsolutePositions_loop [0..<length_c c - 2] (encoding c) 0 1 0 ps1) (\<lambda>ps.
     Return (c\<lparr>absPositions := ps\<rparr>))))"

subsection \<open>calcValidity\<close>

text \<open>
  The scan for a repeated position: \<open>None\<close> is the early return on a position already
  seen, \<open>Some seen\<close> the set collected when every position is new.
\<close>

fun calcValidity_scan :: "point list \<Rightarrow> point set \<Rightarrow> point set option" where
  "calcValidity_scan [] seen = Some seen"
| "calcValidity_scan (pos # rest) seen =
     (if pos \<in> seen then None else calcValidity_scan rest (insert pos seen))"

text \<open>
  \<open>calcValidity c shared\<close> returns the conformation and the contents of the shared set:
  cleared and refilled when the walk is self-avoiding and the conformation holds the
  reference, untouched otherwise.
\<close>

definition calcValidity :: "conformation \<Rightarrow> point set \<Rightarrow> (conformation \<times> point set) outcome" where
  "calcValidity c shared =
     obind (calcAbsolutePositions c) (\<lambda>c1.
       case calcValidity_scan (absPositions c1) {} of
         None \<Rightarrow> Return (c1\<lparr>validState := False\<rparr>, shared)
       | Some seen \<Rightarrow>
           Return (c1\<lparr>validState := True\<rparr>, if setOfPoints c1 then seen else shared))"

subsection \<open>calcFitness\<close>

text \<open>
  The two nested loops over residue indices. The class counter \<open>energyEvalSteps\<close>, which
  only the drivers' loop conditions read, is not part of the model.
\<close>

fun calcFitness_inner ::
  "string option \<Rightarrow> point list \<Rightarrow> point \<Rightarrow> nat list \<Rightarrow> int \<Rightarrow> int outcome" where
  "calcFitness_inner p ps ori [] fit = Return fit"
| "calcFitness_inner p ps ori (j # js) fit =
     obind (getNth p j) (\<lambda>a.
       if a = CHR ''B'' then
         obind (getItem ps j) (\<lambda>dest.
           let distX = \<bar>fst ori - fst dest\<bar>; distY = \<bar>snd ori - snd dest\<bar>
           in calcFitness_inner p ps ori js
                (if (distX = 1 \<and> distY = 0) \<or> (distX = 0 \<and> distY = 1) then fit - 1 else fit))
       else calcFitness_inner p ps ori js fit)"

fun calcFitness_outer ::
  "string option \<Rightarrow> point list \<Rightarrow> nat \<Rightarrow> nat list \<Rightarrow> int \<Rightarrow> int outcome" where
  "calcFitness_outer p ps n [] fit = Return fit"
| "calcFitness_outer p ps n (i # is) fit =
     obind (getNth p i) (\<lambda>a.
       if a = CHR ''B'' then
         obind (getItem ps i) (\<lambda>ori.
           obind (calcFitness_inner p ps ori [i + 2..<n] fit)
             (\<lambda>fit'. calcFitness_outer p ps n is fit'))
       else calcFitness_outer p ps n is fit)"

definition calcFitness :: "conformation \<Rightarrow> conformation outcome" where
  "calcFitness c =
     obind (calcFitness_outer (protein c) (absPositions c) (length_c c) [0..<length_c c] 0)
       (\<lambda>fit. Return (c\<lparr>fitness := fit\<rparr>))"

subsection \<open>getConformationString\<close>

definition getConformationString :: "conformation \<Rightarrow> string" where
  "getConformationString c =
     map (\<lambda>d. if d = FORWARD then CHR ''F'' else if d = LEFT then CHR ''L''
               else if d = RIGHT then CHR ''R'' else CHR ''?'') (encoding c)"

subsection \<open>mutate\<close>

definition randomFloat :: "rng \<Rightarrow> (rat \<times> rng) outcome" where
  "randomFloat g = random_random g"

fun mutate_loop :: "nat list \<Rightarrow> rat \<Rightarrow> int list \<Rightarrow> rng \<Rightarrow> (int list \<times> rng) outcome" where
  "mutate_loop [] probability enc g = Return (enc, g)"
| "mutate_loop (i # is) probability enc g =
     obind (randomFloat g) (\<lambda>(r, g1).
       if r \<le> probability then
         obind (randint (- 1) 1 g1) (\<lambda>(d, g2).
           obind (setItem enc i d) (\<lambda>enc'. mutate_loop is probability enc' g2))
       else mutate_loop is probability enc g1)"

definition mutate :: "rat \<Rightarrow> conformation \<Rightarrow> rng \<Rightarrow> (conformation \<times> rng) outcome" where
  "mutate probability c g =
     obind (mutate_loop [0..<length_c c - 2] probability (encoding c) g)
       (\<lambda>(enc, g'). Return (c\<lparr>encoding := enc\<rparr>, g'))"

subsection \<open>generateRandomConformation and the constructor\<close>

fun generateRandomConformation_seed ::
  "nat list \<Rightarrow> int list \<Rightarrow> rng \<Rightarrow> (int list \<times> rng) outcome" where
  "generateRandomConformation_seed [] enc g = Return (enc, g)"
| "generateRandomConformation_seed (i # is) enc g =
     obind (randint (- 1) 1 g) (\<lambda>(d, g').
       obind (setItem enc i d) (\<lambda>enc'. generateRandomConformation_seed is enc' g'))"

text \<open>
  \<open>while not self.validState: self.mutate(0.1); self.calcValidity()\<close>. The first argument
  bounds the number of iterations; the loop itself has no bound. The literal \<open>0.1\<close> is
  the rational \<open>1 / 10\<close>.
\<close>

fun generateRandomConformation_repair ::
  "nat \<Rightarrow> conformation \<Rightarrow> point set \<Rightarrow> rng \<Rightarrow> (conformation \<times> point set \<times> rng) outcome" where
  "generateRandomConformation_repair fuel c shared g =
     (if \<not> validState c then
        (case fuel of
           0 \<Rightarrow> Unfinished
         | Suc fuel' \<Rightarrow>
             obind (mutate (1 / 10) c g) (\<lambda>(c1, g1).
               obind (calcValidity c1 shared) (\<lambda>(c2, shared2).
                 generateRandomConformation_repair fuel' c2 shared2 g1)))
      else Return (c, shared, g))"

definition generateRandomConformation ::
  "nat \<Rightarrow> conformation \<Rightarrow> bool \<Rightarrow> point set \<Rightarrow> rng \<Rightarrow> (conformation \<times> point set \<times> rng) outcome" where
  "generateRandomConformation fuel c valid shared g =
     obind (generateRandomConformation_seed [0..<length_c c - 2] (encoding c) g) (\<lambda>(enc, g1).
       let c1 = c\<lparr>encoding := enc\<rparr> in
       if valid then
         obind (calcValidity c1 shared) (\<lambda>(c2, shared2).
           generateRandomConformation_repair fuel c2 shared2 g1)
       else Return (c1, shared, g1))"

text \<open>
  \<open>Conformation(protein, setOfPoints)\<close>. A \<open>Protein\<close> object is always truthy, so
  \<open>length\<close> is its length, and 0 without a protein.
\<close>

definition Conformation_init ::
  "nat \<Rightarrow> string option \<Rightarrow> bool \<Rightarrow> point set \<Rightarrow> rng \<Rightarrow> (conformation \<times> point set \<times> rng) outcome" where
  "Conformation_init fuel p sop shared g =
     (let n = getLength p;
          c = \<lparr>protein = p, setOfPoints = sop, length_c = n,
               encoding = replicate (n - 2) 0, absPositions = replicate n (0, 0),
               fitness = 0, generation = 0, validState = False\<rparr>
      in if p \<noteq> None \<and> sop then generateRandomConformation fuel c True shared g
         else Return (c, shared, g))"

subsection \<open>The crossover constructor\<close>

text \<open>\<open>for i in range(lo, hi): new_conf.encoding[i] = p.encoding[i]\<close>.\<close>

fun crossover_copy :: "nat list \<Rightarrow> int list \<Rightarrow> int list \<Rightarrow> int list outcome" where
  "crossover_copy [] src enc = Return enc"
| "crossover_copy (i # is) src enc =
     obind (getItem src i) (\<lambda>v.
       obind (setItem enc i v) (\<lambda>enc'. crossover_copy is src enc'))"

definition Conformation_crossover ::
  "conformation \<Rightarrow> conformation \<Rightarrow> bool \<Rightarrow> point set \<Rightarrow> rng \<Rightarrow>
     (conformation \<times> point set \<times> rng) outcome" where
  "Conformation_crossover p1 p2 sop shared g =
     (let n = length_c p1;
          new_conf = \<lparr>protein = protein p1, setOfPoints = sop, length_c = n,
                      encoding = replicate (n - 2) 0, absPositions = replicate n (0, 0),
                      fitness = 0, generation = (generation p1 + generation p2) div 2 + 1,
                      validState = False\<rparr>
      in obind (if int n - 2 > 0 then randint 0 (int n - 3) g else Return (0, g)) (\<lambda>(randI, g1).
         obind (crossover_copy [0..<nat randI] (encoding p1) (encoding new_conf)) (\<lambda>enc1.
         obind (crossover_copy [nat randI..<n - 2] (encoding p2) enc1) (\<lambda>enc2.
           let child = new_conf\<lparr>encoding := enc2\<rparr> in
           if sop then obind (calcValidity child shared) (\<lambda>(child', shared'). Return (child', shared', g1))
           else Return (child, shared, g1)))))"

section \<open>Population.py\<close>

text \<open>
  Every \<open>Conformation\<close> object a population refers to is an entry of \<open>individuals\<close>, and
  no object occurs there twice (each is created in \<open>__init__\<close> and appended once). A
  reference to a member (\<open>parent1\<close>, \<open>parent2\<close>, \<open>theFittest\<close>) is therefore the position
  of the object in the list, and \<open>obj.__dict__.update(child.__dict__)\<close>, which overwrites
  every attribute of the object in place, is the update of the list at that position.
  \<open>protein_p\<close> and \<open>size_p\<close> are the attributes \<open>protein\<close> and \<open>size\<close>.
\<close>

record population =
  parent1 :: "nat option"
  parent2 :: "nat option"
  mutProb :: rat
  crossProb :: rat
  protein_p :: string
  size_p :: int
  collisionSet :: "point set"
  setOfConformations :: "string set"
  individuals :: "conformation list"
  theFittest :: nat

subsection \<open>setFittest, getFittest, isInsertable\<close>

fun setFittest_loop :: "nat list \<Rightarrow> conformation list \<Rightarrow> nat \<Rightarrow> nat" where
  "setFittest_loop [] inds best = best"
| "setFittest_loop (i # is) inds best =
     setFittest_loop is inds (if fitness (inds ! i) < fitness (inds ! best) then i else best)"

definition setFittest :: "population \<Rightarrow> population" where
  "setFittest pop =
     pop\<lparr>theFittest :=
       setFittest_loop [0..<length (individuals pop)] (individuals pop) (theFittest pop)\<rparr>"

definition getFittest :: "population \<Rightarrow> conformation" where
  "getFittest pop = individuals pop ! theFittest pop"

definition isInsertable :: "conformation \<Rightarrow> population \<Rightarrow> bool \<times> population" where
  "isInsertable candidate pop =
     (let confStr = getConformationString candidate in
      if confStr \<notin> setOfConformations pop
      then (True, pop\<lparr>setOfConformations := insert confStr (setOfConformations pop)\<rparr>)
      else (False, pop))"

subsection \<open>The constructor\<close>

text \<open>
  \<open>while i < self.size\<close>, with a bound on the number of iterations as first argument and
  the bound handed to every repair loop as second. The loop itself has no bound.
\<close>

fun Population_init_loop ::
  "nat \<Rightarrow> nat \<Rightarrow> int \<Rightarrow> int \<Rightarrow> string \<Rightarrow> point set \<Rightarrow> string set \<Rightarrow> conformation list \<Rightarrow> rng \<Rightarrow>
     (point set \<times> string set \<times> conformation list \<times> rng) outcome" where
  "Population_init_loop fuel k i size' prot shared seen inds g =
     (if i < size' then
        (case fuel of
           0 \<Rightarrow> Unfinished
         | Suc fuel' \<Rightarrow>
             obind (Conformation_init k (Some prot) True shared g) (\<lambda>(temp, shared1, g1).
               obind (calcFitness temp) (\<lambda>temp1.
                 if fitness temp1 \<noteq> 0 \<and> getConformationString temp1 \<notin> seen
                 then Population_init_loop fuel' k (i + 1) size' prot shared1
                        (insert (getConformationString temp1) seen) (inds @ [temp1]) g1
                 else Population_init_loop fuel' k i size' prot shared1 seen inds g1)))
      else Return (shared, seen, inds, g))"

definition Population_init ::
  "nat \<Rightarrow> int \<Rightarrow> string \<Rightarrow> rat \<Rightarrow> rat \<Rightarrow> rng \<Rightarrow> (population \<times> rng) outcome" where
  "Population_init fuel size' prot mutProb' crossProb' g =
     obind (Population_init_loop fuel fuel 0 size' prot {} {} [] g) (\<lambda>(shared, seen, inds, g1).
       obind (getItem inds 0) (\<lambda>first.
         Return (setFittest
                   \<lparr>parent1 = None, parent2 = None, mutProb = mutProb', crossProb = crossProb',
                    protein_p = prot, size_p = size', collisionSet = shared,
                    setOfConformations = seen, individuals = inds, theFittest = 0\<rparr>, g1)))"

subsection \<open>tournamentSelect\<close>

text \<open>\<open>min(participants, key=...)\<close> keeps the first of the entries of least fitness.\<close>

fun tournamentSelect_min :: "conformation list \<Rightarrow> nat \<Rightarrow> nat list \<Rightarrow> nat" where
  "tournamentSelect_min inds best [] = best"
| "tournamentSelect_min inds best (j # js) =
     tournamentSelect_min inds (if fitness (inds ! j) < fitness (inds ! best) then j else best) js"

definition tournamentSelect :: "int \<Rightarrow> population \<Rightarrow> rng \<Rightarrow> (nat \<times> rng) outcome" where
  "tournamentSelect tournament_size pop g =
     obind (sample (length (individuals pop)) tournament_size g) (\<lambda>(participants, g1).
       case participants of
         [] \<Rightarrow> Raise ValueError
       | j # js \<Rightarrow> Return (tournamentSelect_min (individuals pop) j js, g1))"

subsection \<open>crossover\<close>

text \<open>
  The replacement of a parent by a child: lines 92 to 95 with \<open>own = parent1\<close> and
  \<open>other = parent2\<close>, lines 103 to 106 with the two exchanged.
\<close>

definition replace_parent :: "conformation \<Rightarrow> nat \<Rightarrow> nat \<Rightarrow> population \<Rightarrow> population" where
  "replace_parent child own other pop =
     (if fitness child < fitness (individuals pop ! own)
      then pop\<lparr>individuals := (individuals pop)[own := child]\<rparr>
      else if fitness child < fitness (individuals pop ! other)
      then pop\<lparr>individuals := (individuals pop)[other := child]\<rparr>
      else pop)"

text \<open>
  The treatment of one child: mutate, recompute validity, and when valid compute the
  fitness, ask \<open>isInsertable\<close> and replace (lines 86 to 95, and 98 to 106).
\<close>

definition offer_child ::
  "conformation \<Rightarrow> nat \<Rightarrow> nat \<Rightarrow> population \<Rightarrow> rng \<Rightarrow> (population \<times> rng) outcome" where
  "offer_child child own other pop g =
     obind (mutate (mutProb pop) child g) (\<lambda>(c1, g1).
     obind (calcValidity c1 (collisionSet pop)) (\<lambda>(c2, shared).
       let pop1 = pop\<lparr>collisionSet := shared\<rparr> in
       if validState c2 then
         obind (calcFitness c2) (\<lambda>c3.
           case isInsertable c3 pop1 of
             (ok, pop2) \<Rightarrow> Return (if ok then replace_parent c3 own other pop2 else pop2, g1))
       else Return (pop1, g1)))"

text \<open>Lines 109 to 112: the tracked fittest member after the two children.\<close>

definition refresh_fittest :: "nat \<Rightarrow> nat \<Rightarrow> population \<Rightarrow> population" where
  "refresh_fittest p1 p2 pop =
     (let pop1 = (if fitness (individuals pop ! p1) < fitness (individuals pop ! theFittest pop)
                  then pop\<lparr>theFittest := p1\<rparr> else pop)
      in if fitness (individuals pop1 ! p2) < fitness (individuals pop1 ! theFittest pop1)
         then pop1\<lparr>theFittest := p2\<rparr> else pop1)"

text \<open>
  Lines 81 to 112: the two children of the selected parents, their treatment, and the
  refresh of the tracked fittest member.
\<close>

definition crossover_offspring ::
  "nat \<Rightarrow> nat \<Rightarrow> population \<Rightarrow> rng \<Rightarrow> (population \<times> rng) outcome" where
  "crossover_offspring p1 p2 pop g =
     obind (Conformation_crossover (individuals pop ! p1) (individuals pop ! p2)
              True (collisionSet pop) g) (\<lambda>(child1, shared1, g1).
     obind (Conformation_crossover (individuals pop ! p2) (individuals pop ! p1)
              True shared1 g1) (\<lambda>(child2, shared2, g2).
     obind (offer_child child1 p1 p2 (pop\<lparr>collisionSet := shared2\<rparr>) g2) (\<lambda>(pop3, g3).
     obind (offer_child child2 p2 p1 pop3 g3) (\<lambda>(pop4, g4).
       Return (refresh_fittest p1 p2 pop4, g4)))))"

text \<open>Lines 73 to 79, the two selections and the two early returns, then the rest.\<close>

definition Population_crossover :: "population \<Rightarrow> rng \<Rightarrow> (population \<times> rng) outcome" where
  "Population_crossover pop g =
     obind (tournamentSelect 3 pop g) (\<lambda>(p1, g1).
       let pop1 = pop\<lparr>parent1 := Some p1\<rparr> in
       obind (random_random g1) (\<lambda>(r1, g2).
         if crossProb pop1 < r1 then Return (pop1, g2)
         else
           obind (tournamentSelect 3 pop1 g2) (\<lambda>(p2, g3).
             let pop2 = pop1\<lparr>parent2 := Some p2\<rparr> in
             obind (random_random g3) (\<lambda>(r2, g4).
               if crossProb pop2 < r2 then Return (pop2, g4)
               else crossover_offspring p1 p2 pop2 g4))))"

text \<open>A number of calls of \<open>crossover\<close> in a row, as the drivers make them.\<close>

fun crossover_calls :: "nat \<Rightarrow> population \<Rightarrow> rng \<Rightarrow> (population \<times> rng) outcome" where
  "crossover_calls 0 pop g = Return (pop, g)"
| "crossover_calls (Suc n) pop g =
     obind (Population_crossover pop g) (\<lambda>(pop', g'). crossover_calls n pop' g')"

section \<open>Specification-side definitions\<close>

subsection \<open>The walk as the specification words it\<close>

text \<open>
  A heading is a unit vector; up is \<open>(0, 1)\<close>. Rotating a heading by a quarter turn to the
  left maps \<open>(dx, dy)\<close> to \<open>(- dy, dx)\<close>, to the right to \<open>(dy, - dx)\<close>. FORWARD keeps the
  heading, LEFT and RIGHT rotate it, and the walk then advances one step along it.
\<close>

definition rotate_left :: "point \<Rightarrow> point" where
  "rotate_left h = (- snd h, fst h)"

definition rotate_right :: "point \<Rightarrow> point" where
  "rotate_right h = (snd h, - fst h)"

definition spec_heading :: "point \<Rightarrow> int \<Rightarrow> point" where
  "spec_heading h d =
     (if d = FORWARD then h else if d = LEFT then rotate_left h
      else if d = RIGHT then rotate_right h else h)"

fun spec_walk :: "point \<Rightarrow> point \<Rightarrow> int list \<Rightarrow> point list" where
  "spec_walk h p [] = []"
| "spec_walk h p (d # ds) =
     (let h' = spec_heading h d; p' = (fst p + fst h', snd p + snd h')
      in p' # spec_walk h' p' ds)"

definition spec_positions :: "int list \<Rightarrow> point list" where
  "spec_positions e = (0, 0) # (0, 1) # spec_walk (0, 1) (0, 1) e"

text \<open>The loop of \<open>calcAbsolutePositions\<close> as a function of the symbols it reads.\<close>

fun walk :: "int list \<Rightarrow> int \<Rightarrow> int \<Rightarrow> nat \<Rightarrow> point list" where
  "walk [] x y lastDirection = []"
| "walk (d # ds) x y lastDirection =
     (case calcAbsolutePositions_step lastDirection d x y of
        (x', y', lastDirection') \<Rightarrow> (x', y') # walk ds x' y' lastDirection')"

definition positions :: "nat \<Rightarrow> int list \<Rightarrow> point list" where
  "positions n e = (0, 0) # (0, 1) # walk (take (n - 2) e) 0 1 0"

definition direction_vector :: "nat \<Rightarrow> point" where
  "direction_vector lastDirection =
     (if lastDirection = 0 then (0, 1) else if lastDirection = 1 then (0, - 1)
      else if lastDirection = 2 then (1, 0) else (- 1, 0))"


subsection \<open>Contacts\<close>

text \<open>
  The qualifying pairs of the specification: residues \<open>i\<close> and \<open>j\<close> with \<open>j \<ge> i + 2\<close>, both
  hydrophobic (tag \<open>B\<close>), at Manhattan distance 1 on the lattice.
\<close>

definition manhattan :: "point \<Rightarrow> point \<Rightarrow> int" where
  "manhattan p q = \<bar>fst p - fst q\<bar> + \<bar>snd p - snd q\<bar>"

definition qualifies :: "string \<Rightarrow> point list \<Rightarrow> nat \<Rightarrow> nat \<Rightarrow> bool" where
  "qualifies s ps i j \<longleftrightarrow>
     i + 2 \<le> j \<and> s ! i = CHR ''B'' \<and> s ! j = CHR ''B'' \<and> manhattan (ps ! i) (ps ! j) = 1"

definition contacts :: "string \<Rightarrow> point list \<Rightarrow> (nat \<times> nat) set" where
  "contacts s ps =
     Set.filter (\<lambda>(i, j). qualifies s ps i j) ({0..<length s} \<times> {0..<length s})"

text \<open>What the inner loop of \<open>calcFitness\<close> subtracts for residue \<open>i\<close>.\<close>

definition row_count :: "string \<Rightarrow> point list \<Rightarrow> nat \<Rightarrow> nat \<Rightarrow> int" where
  "row_count s ps n i =
     (if s ! i = CHR ''B''
      then int (length (filter (\<lambda>j. s ! j = CHR ''B'' \<and> manhattan (ps ! i) (ps ! j) = 1) [i + 2..<n]))
      else 0)"

subsection \<open>Invariants of a population\<close>

text \<open>
  A member is admissible when its flag says valid, its positions are those of its
  encoding and pairwise distinct, and its fitness is negative.
\<close>

definition self_avoiding :: "conformation \<Rightarrow> bool" where
  "self_avoiding c \<longleftrightarrow>
     absPositions c = positions (length_c c) (encoding c) \<and> distinct (absPositions c)"

definition member_ok :: "conformation \<Rightarrow> bool" where
  "member_ok c \<longleftrightarrow> validState c \<and> self_avoiding c \<and> fitness c < 0"

definition population_ok :: "population \<Rightarrow> bool" where
  "population_ok pop \<longleftrightarrow>
     int (length (individuals pop)) = size_p pop \<and>
     list_all member_ok (individuals pop) \<and>
     distinct (map getConformationString (individuals pop)) \<and>
     getConformationString ` set (individuals pop) \<subseteq> setOfConformations pop"

definition fittest_ok :: "population \<Rightarrow> bool" where
  "fittest_ok pop \<longleftrightarrow>
     theFittest pop < length (individuals pop) \<and>
     list_all (\<lambda>c. fitness (getFittest pop) \<le> fitness c) (individuals pop)"

text \<open>
  What the treatment of the children may change: members are overwritten in place at the
  positions in \<open>S\<close> only, each time by a conformation of strictly lower fitness, and the
  index of strings only grows.
\<close>

definition replaces_within :: "nat set \<Rightarrow> population \<Rightarrow> population \<Rightarrow> bool" where
  "replaces_within S pop pop' \<longleftrightarrow>
     length (individuals pop') = length (individuals pop) \<and>
     theFittest pop' = theFittest pop \<and> size_p pop' = size_p pop \<and>
     setOfConformations pop \<subseteq> setOfConformations pop' \<and>
     list_all (\<lambda>i. individuals pop' ! i = individuals pop ! i \<or>
                   (i \<in> S \<and> fitness (individuals pop' ! i) < fitness (individuals pop ! i)))
       [0..<length (individuals pop)]"

subsection \<open>Replacement as the specification words it\<close>

text \<open>
  The mutated child of lines 86 to 89 (and 98 to 101) on its own: mutation, then
  validity, then the fitness when valid. The result is the child with its fitness, or
  \<open>None\<close> for an invalid child, with the shared set and the draws left.
\<close>

definition mutated_child ::
  "rat \<Rightarrow> conformation \<Rightarrow> point set \<Rightarrow> rng \<Rightarrow> (conformation option \<times> point set \<times> rng) outcome" where
  "mutated_child p child shared g =
     obind (mutate p child g) (\<lambda>(c1, g1).
     obind (calcValidity c1 shared) (\<lambda>(c2, shared').
       if validState c2
       then obind (calcFitness c2) (\<lambda>c3. Return (Some c3, shared', g1))
       else Return (None, shared', g1)))"

text \<open>
  Elitist replacement with strict comparisons: the child takes the place of the parent
  that owns it when strictly fitter than that parent, else of the other parent when
  strictly fitter than that one, else of nobody.
\<close>

definition spec_place :: "conformation \<Rightarrow> nat \<Rightarrow> nat \<Rightarrow> conformation list \<Rightarrow> conformation list" where
  "spec_place c own other inds =
     (if fitness c < fitness (inds ! own) then inds[own := c]
      else if fitness c < fitness (inds ! other) then inds[other := c]
      else inds)"

text \<open>
  The treatment of one child on the members and the index: an invalid child and a child
  whose string is in the index change nothing; any other child is registered and placed.
\<close>

definition spec_treat ::
  "conformation option \<Rightarrow> nat \<Rightarrow> nat \<Rightarrow> conformation list \<times> string set \<Rightarrow>
     conformation list \<times> string set" where
  "spec_treat mc own other st =
     (case mc of
        None \<Rightarrow> st
      | Some c \<Rightarrow>
          if getConformationString c \<in> snd st then st
          else (spec_place c own other (fst st), insert (getConformationString c) (snd st)))"

section \<open>A small run\<close>

text \<open>
  The sequence \<open>BWWBWB\<close> (hydrophobic residues 0, 3 and 5), a population of three, and the
  draws of its construction and of two generation steps.
\<close>

definition example_member :: "int list \<Rightarrow> point list \<Rightarrow> int \<Rightarrow> int \<Rightarrow> conformation" where
  "example_member e ps f gen =
     \<lparr>protein = Some ''BWWBWB'', setOfPoints = True, length_c = 6, encoding = e,
      absPositions = ps, fitness = f, generation = gen, validState = True\<rparr>"

definition example_RRFF :: conformation where
  "example_RRFF =
     example_member [1, 1, 0, 0] [(0, 0), (0, 1), (1, 1), (1, 0), (1, - 1), (1, - 2)] (- 1) 0"

definition example_RRFL :: conformation where
  "example_RRFL =
     example_member [1, 1, 0, - 1] [(0, 0), (0, 1), (1, 1), (1, 0), (1, - 1), (2, - 1)] (- 1) 0"

definition example_LLFF :: conformation where
  "example_LLFF =
     example_member [- 1, - 1, 0, 0] [(0, 0), (0, 1), (- 1, 1), (- 1, 0), (- 1, - 1), (- 1, - 2)] (- 1) 0"

definition example_RRFR :: conformation where
  "example_RRFR =
     example_member [1, 1, 0, 1] [(0, 0), (0, 1), (1, 1), (1, 0), (1, - 1), (0, - 1)] (- 2) 1"

definition example_LLFR :: conformation where
  "example_LLFR =
     example_member [- 1, - 1, 0, 1] [(0, 0), (0, 1), (- 1, 1), (- 1, 0), (- 1, - 1), (- 2, - 1)] (- 1) 1"

definition example_init_draws :: rng where
  "example_init_draws =
     [DInt 1, DInt 1, DInt 0, DInt 0,
      DInt 1, DInt 1, DInt 0, DInt (- 1),
      DInt (- 1), DInt (- 1), DInt 0, DInt 0]"

definition example_population :: population where
  "example_population =
     \<lparr>parent1 = None, parent2 = None, mutProb = 1 / 20, crossProb = 7 / 10,
      protein_p = ''BWWBWB'', size_p = 3,
      collisionSet = {(- 1, - 2), (- 1, - 1), (- 1, 0), (- 1, 1), (0, 1), (0, 0)},
      setOfConformations = {''LLFF'', ''RRFL'', ''RRFF''},
      individuals = [example_RRFF, example_RRFL, example_LLFF],
      theFittest = 0\<rparr>"

text \<open>
  A step that selects members 0 and 1, cuts both children at 0 and mutates the last
  symbol of the first child to RIGHT: the child \<open>RRFR\<close> has fitness \<open>- 2\<close>.
\<close>

definition example_improving_draws :: rng where
  "example_improving_draws =
     [DSample [0, 1, 2], DFloat 0, DSample [1, 0, 2], DFloat 0, DInt 0, DInt 0,
      DFloat (1 / 2), DFloat (1 / 2), DFloat (1 / 2), DFloat 0, DInt 1,
      DFloat (1 / 2), DFloat (1 / 2), DFloat (1 / 2), DFloat (1 / 2)]"

definition example_population_improved :: population where
  "example_population_improved =
     \<lparr>parent1 = Some 0, parent2 = Some 1, mutProb = 1 / 20, crossProb = 7 / 10,
      protein_p = ''BWWBWB'', size_p = 3,
      collisionSet = {(1, - 2), (1, - 1), (1, 0), (1, 1), (0, 1), (0, 0)},
      setOfConformations = {''RRFR'', ''LLFF'', ''RRFL'', ''RRFF''},
      individuals = [example_RRFR, example_RRFL, example_LLFF],
      theFittest = 0\<rparr>"

text \<open>
  A step that selects members 0 and 2, cuts both children at 0 and mutates the last
  symbol of the first child to RIGHT: the child \<open>LLFR\<close> has fitness \<open>- 1\<close>, as both parents.
\<close>

definition example_equal_draws :: rng where
  "example_equal_draws =
     [DSample [0, 1, 2], DFloat 0, DSample [2, 0, 1], DFloat 0, DInt 0, DInt 0,
      DFloat (1 / 2), DFloat (1 / 2), DFloat (1 / 2), DFloat 0, DInt 1,
      DFloat (1 / 2), DFloat (1 / 2), DFloat (1 / 2), DFloat (1 / 2)]"

definition example_population_equal :: population where
  "example_population_equal =
     \<lparr>parent1 = Some 0, parent2 = Some 2, mutProb = 1 / 20, crossProb = 7 / 10,
      protein_p = ''BWWBWB'', size_p = 3,
      collisionSet = {(1, - 2), (1, - 1), (1, 0), (1, 1), (0, 1), (0, 0)},
      setOfConformations = {''LLFR'', ''LLFF'', ''RRFL'', ''RRFF''},
      individuals = [example_RRFF, example_RRFL, example_LLFF],
      theFittest = 0\<rparr>"

text \<open>
  The first child of the second step as the crossover constructor returns it, before
  its mutation, with the shared set after the two constructors and the draws of the
  mutation.
\<close>

definition example_child_LLFF :: conformation where
  "example_child_LLFF =
     example_member [- 1, - 1, 0, 0] [(0, 0), (0, 1), (- 1, 1), (- 1, 0), (- 1, - 1), (- 1, - 2)] 0 1"

definition example_shared :: "point set" where
  "example_shared = {(1, - 2), (1, - 1), (1, 0), (1, 1), (0, 1), (0, 0)}"

definition example_mutation_draws :: rng where
  "example_mutation_draws = [DFloat (1 / 2), DFloat (1 / 2), DFloat (1 / 2), DFloat 0, DInt 1]"

section \<open>Lattice reconstruction\<close>

lemma obind_Return_iff:
  "obind m f = Return y \<longleftrightarrow> (\<exists>x. m = Return x \<and> f x = Return y)"
  by (cases m) simp_all

lemma length_walk: "length (walk ds x y ld) = length ds"
  by (induction ds arbitrary: x y ld) (auto split: prod.splits)

lemma calcAbsolutePositions_loop_walk:
  "k \<le> m \<Longrightarrow> m \<le> length enc \<Longrightarrow> length ps = m + 2 \<Longrightarrow>
   calcAbsolutePositions_loop [k..<m] enc x y ld ps =
     Return (take (k + 2) ps @ walk (drop k (take m enc)) x y ld)"
proof (induction "m - k" arbitrary: k x y ld ps)
  case 0
  then show ?case by simp
next
  case (Suc n)
  then have km: "k < m" by simp
  obtain x' y' ld' where st: "calcAbsolutePositions_step ld (enc ! k) x y = (x', y', ld')"
    by (cases "calcAbsolutePositions_step ld (enc ! k) x y") auto
  have ih: "calcAbsolutePositions_loop [Suc k..<m] enc x' y' ld' (ps[k + 2 := (x', y')]) =
      Return (take (Suc k + 2) (ps[k + 2 := (x', y')]) @ walk (drop (Suc k) (take m enc)) x' y' ld')"
    using Suc.hyps(1)[of "Suc k" "ps[k + 2 := (x', y')]" x' y' ld'] Suc.hyps(2) Suc.prems km
    by simp
  have dr: "drop k (take m enc) = enc ! k # drop (Suc k) (take m enc)"
    using km Suc.prems(2) by (simp add: Cons_nth_drop_Suc [symmetric])
  have tk: "take (Suc k + 2) (ps[k + 2 := (x', y')]) = take (k + 2) ps @ [(x', y')]"
    using km Suc.prems(3) by (simp add: take_Suc_conv_app_nth)
  have "calcAbsolutePositions_loop [k..<m] enc x y ld ps =
      calcAbsolutePositions_loop [Suc k..<m] enc x' y' ld' (ps[k + 2 := (x', y')])"
    using km Suc.prems(2,3) st by (simp add: upt_conv_Cons getItem_def setItem_def)
  then show ?case
    using ih dr tk st by simp
qed

lemma calcAbsolutePositions_Return:
  assumes "2 \<le> length_c c" and "length_c c - 2 \<le> length (encoding c)"
  shows "calcAbsolutePositions c = Return (c\<lparr>absPositions := positions (length_c c) (encoding c)\<rparr>)"
proof -
  let ?n = "length_c c"
  let ?ps1 = "(replicate ?n (0::int, 0::int))[0 := (0, 0), 1 := (0, 1)]"
  have len: "length ?ps1 = (?n - 2) + 2" using assms(1) by simp
  have tk: "take (Suc (Suc 0)) ?ps1 = [(0, 0), (0, 1)]"
    using assms(1) by (cases ?n; cases "?n - 1") (auto simp: take_Suc_conv_app_nth)
  have "calcAbsolutePositions_loop [0..<?n - 2] (encoding c) 0 1 0 ?ps1 =
      Return (take (0 + 2) ?ps1 @ walk (drop 0 (take (?n - 2) (encoding c))) 0 1 0)"
    using len assms(2) by (intro calcAbsolutePositions_loop_walk) auto
  then show ?thesis
    using assms(1) tk by (simp add: calcAbsolutePositions_def setItem_def positions_def)
qed

lemma calcAbsolutePositions_Raise:
  assumes "length_c c < 2"
  shows "calcAbsolutePositions c = Raise IndexError"
  using assms by (cases "length_c c") (auto simp: calcAbsolutePositions_def setItem_def)

lemma calcAbsolutePositions_loop_short:
  "k \<le> length enc \<Longrightarrow> length enc < m \<Longrightarrow> length ps = m + 2 \<Longrightarrow>
   calcAbsolutePositions_loop [k..<m] enc x y ld ps = Raise IndexError"
proof (induction "length enc - k" arbitrary: k x y ld ps)
  case 0
  then show ?case by (simp add: upt_conv_Cons getItem_def)
next
  case (Suc n)
  then have kl: "k < length enc" and km: "k < m" by simp_all
  obtain x' y' ld' where st: "calcAbsolutePositions_step ld (enc ! k) x y = (x', y', ld')"
    by (cases "calcAbsolutePositions_step ld (enc ! k) x y") auto
  have "calcAbsolutePositions_loop [Suc k..<m] enc x' y' ld' (ps[k + 2 := (x', y')]) = Raise IndexError"
    using Suc.hyps(1)[of "Suc k" "ps[k + 2 := (x', y')]" x' y' ld'] Suc.hyps(2) Suc.prems kl
    by simp
  then show ?case
    using km kl Suc.prems(3) st by (simp add: upt_conv_Cons getItem_def setItem_def)
qed

lemma calcAbsolutePositions_short:
  assumes "2 \<le> length_c c" and "length (encoding c) < length_c c - 2"
  shows "calcAbsolutePositions c = Raise IndexError"
proof -
  let ?n = "length_c c"
  let ?ps1 = "(replicate ?n (0::int, 0::int))[0 := (0, 0), 1 := (0, 1)]"
  have "calcAbsolutePositions_loop [0..<?n - 2] (encoding c) 0 1 0 ?ps1 = Raise IndexError"
    using assms by (intro calcAbsolutePositions_loop_short) auto
  then show ?thesis
    using assms(1) by (simp add: calcAbsolutePositions_def setItem_def)
qed

lemma calcAbsolutePositions_cases:
  "calcAbsolutePositions c =
     (if 2 \<le> length_c c \<and> length_c c - 2 \<le> length (encoding c)
      then Return (c\<lparr>absPositions := positions (length_c c) (encoding c)\<rparr>)
      else Raise IndexError)"
  using calcAbsolutePositions_Return [of c] calcAbsolutePositions_Raise [of c]
    calcAbsolutePositions_short [of c]
  by (cases "2 \<le> length_c c"; cases "length_c c - 2 \<le> length (encoding c)") simp_all

lemma length_positions:
  "2 \<le> n \<Longrightarrow> n - 2 \<le> length e \<Longrightarrow> length (positions n e) = n"
  by (simp add: positions_def length_walk)

lemma calcAbsolutePositions_step_spec:
  assumes "d = LEFT \<or> d = FORWARD \<or> d = RIGHT" and "ld < 4"
    and "calcAbsolutePositions_step ld d x y = (x', y', ld')"
  shows "ld' < 4 \<and> direction_vector ld' = spec_heading (direction_vector ld) d \<and>
         x' = x + fst (direction_vector ld') \<and> y' = y + snd (direction_vector ld')"
proof -
  from assms(2) consider "ld = 0" | "ld = 1" | "ld = 2" | "ld = 3" by linarith
  then show ?thesis
    using assms(1,3)
    by cases
      (auto simp: calcAbsolutePositions_step_def direction_vector_def spec_heading_def
        rotate_left_def rotate_right_def FORWARD_def LEFT_def RIGHT_def)
qed

lemma walk_spec_walk:
  "set ds \<subseteq> {LEFT, FORWARD, RIGHT} \<Longrightarrow> ld < 4 \<Longrightarrow>
   walk ds x y ld = spec_walk (direction_vector ld) (x, y) ds"
proof (induction ds arbitrary: x y ld)
  case Nil
  then show ?case by simp
next
  case (Cons d ds)
  obtain x' y' ld' where st: "calcAbsolutePositions_step ld d x y = (x', y', ld')"
    by (cases "calcAbsolutePositions_step ld d x y") auto
  have d: "d = LEFT \<or> d = FORWARD \<or> d = RIGHT" using Cons.prems(1) by auto
  note sp = calcAbsolutePositions_step_spec [OF d Cons.prems(2) st]
  have "walk ds x' y' ld' = spec_walk (direction_vector ld') (x', y') ds"
    using Cons.IH [of ld' x' y'] Cons.prems(1) sp by simp
  then show ?case
    using st sp by (simp add: Let_def)
qed

lemma positions_spec_positions:
  assumes "length e = n - 2" and "set e \<subseteq> {LEFT, FORWARD, RIGHT}"
  shows "positions n e = spec_positions e"
  using assms walk_spec_walk [of e 0 0 1]
  by (simp add: positions_def spec_positions_def direction_vector_def)

text \<open>
  C2. For an encoding of \<open>length - 2\<close> symbols over LEFT, FORWARD and RIGHT (\<open>length \<ge> 2\<close>),
  \<open>calcAbsolutePositions\<close> returns, and the positions it stores are those of the walk of
  the specification: residue 0 at \<open>(0, 0)\<close>, residue 1 at \<open>(0, 1)\<close> heading up, then one
  step per symbol in the heading kept (FORWARD) or rotated by a quarter turn (LEFT,
  RIGHT). The positions are a function of the encoding alone, and computing them again
  on the result changes nothing.
\<close>

theorem calcAbsolutePositions_is_spec_walk:
  assumes "2 \<le> length_c c"
    and "length (encoding c) = length_c c - 2"
    and "set (encoding c) \<subseteq> {LEFT, FORWARD, RIGHT}"
  shows "\<exists>c'. calcAbsolutePositions c = Return c' \<and>
           c' = c\<lparr>absPositions := spec_positions (encoding c)\<rparr> \<and>
           length (absPositions c') = length_c c \<and>
           absPositions c' ! 0 = (0, 0) \<and> absPositions c' ! 1 = (0, 1) \<and>
           calcAbsolutePositions c' = Return c'"
proof -
  let ?c' = "c\<lparr>absPositions := spec_positions (encoding c)\<rparr>"
  have eq: "positions (length_c c) (encoding c) = spec_positions (encoding c)"
    using assms(2,3) by (rule positions_spec_positions)
  have r1: "calcAbsolutePositions c = Return ?c'"
    using assms(1,2) eq by (simp add: calcAbsolutePositions_cases)
  have r2: "calcAbsolutePositions ?c' = Return ?c'"
    using assms(1,2) eq by (simp add: calcAbsolutePositions_cases)
  have len: "length (absPositions ?c') = length_c c"
    using assms(1,2) eq length_positions [of "length_c c" "encoding c"] by simp
  have "absPositions ?c' ! 0 = (0, 0)" and "absPositions ?c' ! 1 = (0, 1)"
    by (simp_all add: spec_positions_def)
  with r1 r2 len show ?thesis by blast
qed

theorem calcAbsolutePositions_is_spec_walk_witness:
  "calcAbsolutePositions
     \<lparr>protein = Some ''BWWBWB'', setOfPoints = True, length_c = 6, encoding = [1, 1, 0, 1],
      absPositions = [], fitness = 0, generation = 0, validState = False\<rparr> =
   Return
     \<lparr>protein = Some ''BWWBWB'', setOfPoints = True, length_c = 6, encoding = [1, 1, 0, 1],
      absPositions = [(0, 0), (0, 1), (1, 1), (1, 0), (1, - 1), (0, - 1)],
      fitness = 0, generation = 0, validState = False\<rparr>"
  using calcAbsolutePositions_is_spec_walk
    [of "\<lparr>protein = Some ''BWWBWB'', setOfPoints = True, length_c = 6, encoding = [1, 1, 0, 1],
      absPositions = [], fitness = 0, generation = 0, validState = False\<rparr>"]
  by (simp add: spec_positions_def spec_heading_def rotate_left_def rotate_right_def
      FORWARD_def LEFT_def RIGHT_def)

section \<open>Validity\<close>

lemma calcValidity_scan_distinct:
  "calcValidity_scan ps seen =
     (if distinct ps \<and> set ps \<inter> seen = {} then Some (seen \<union> set ps) else None)"
  by (induction ps arbitrary: seen) auto

lemma calcValidity_cases:
  "calcValidity c shared =
     (if 2 \<le> length_c c \<and> length_c c - 2 \<le> length (encoding c)
      then (let ps = positions (length_c c) (encoding c) in
            Return (c\<lparr>absPositions := ps, validState := distinct ps\<rparr>,
                    if distinct ps \<and> setOfPoints c then set ps else shared))
      else Raise IndexError)"
  by (simp add: calcValidity_def calcAbsolutePositions_cases calcValidity_scan_distinct Let_def)

text \<open>
  C3. Whenever \<open>calcValidity\<close> returns, the positions it leaves are the \<open>length\<close>
  positions recomputed from the encoding, and the validity flag is true exactly when no
  two of them, at any two different indices, are equal. It returns for every conformation
  of at least two residues whose encoding has at least \<open>length - 2\<close> symbols.
\<close>

theorem calcValidity_iff_self_avoiding:
  "(calcValidity c shared = Return (c', shared') \<longrightarrow>
      absPositions c' = positions (length_c c) (encoding c) \<and>
      length (absPositions c') = length_c c \<and>
      (validState c' \<longleftrightarrow>
         (\<forall>i < length_c c. \<forall>j < length_c c. i \<noteq> j \<longrightarrow> absPositions c' ! i \<noteq> absPositions c' ! j))) \<and>
   (2 \<le> length_c c \<and> length_c c - 2 \<le> length (encoding c) \<longrightarrow>
      (\<exists>d shared''. calcValidity c shared = Return (d, shared'')))"
proof (intro conjI impI)
  assume r: "calcValidity c shared = Return (c', shared')"
  then have ok: "2 \<le> length_c c \<and> length_c c - 2 \<le> length (encoding c)"
    by (auto simp: calcValidity_cases split: if_splits)
  with r have c': "c' = c\<lparr>absPositions := positions (length_c c) (encoding c),
      validState := distinct (positions (length_c c) (encoding c))\<rparr>"
    by (simp add: calcValidity_cases Let_def)
  show ps: "absPositions c' = positions (length_c c) (encoding c)" using c' by simp
  show len: "length (absPositions c') = length_c c"
    using ps ok by (simp add: length_positions)
  have "validState c' \<longleftrightarrow> distinct (absPositions c')" using c' by simp
  also have "\<dots> \<longleftrightarrow> (\<forall>i < length_c c. \<forall>j < length_c c. i \<noteq> j \<longrightarrow>
      absPositions c' ! i \<noteq> absPositions c' ! j)"
    using len by (simp add: distinct_conv_nth)
  finally show "validState c' \<longleftrightarrow> (\<forall>i < length_c c. \<forall>j < length_c c. i \<noteq> j \<longrightarrow>
      absPositions c' ! i \<noteq> absPositions c' ! j)" .
next
  assume "2 \<le> length_c c \<and> length_c c - 2 \<le> length (encoding c)"
  then show "\<exists>d shared''. calcValidity c shared = Return (d, shared'')"
    by (simp add: calcValidity_cases Let_def)
qed

theorem calcValidity_iff_self_avoiding_witness:
  "calcValidity
     \<lparr>protein = Some ''BWWBW'', setOfPoints = True, length_c = 5, encoding = [1, 1, 1],
      absPositions = [], fitness = 0, generation = 0, validState = True\<rparr> {} =
   Return
     (\<lparr>protein = Some ''BWWBW'', setOfPoints = True, length_c = 5, encoding = [1, 1, 1],
       absPositions = [(0, 0), (0, 1), (1, 1), (1, 0), (0, 0)],
       fitness = 0, generation = 0, validState = False\<rparr>, {}) \<and>
   positions 5 [1, 1, 1] ! 0 = positions 5 [1, 1, 1] ! 4"
proof -
  let ?c = "\<lparr>protein = Some ''BWWBW'', setOfPoints = True, length_c = 5, encoding = [1, 1, 1],
      absPositions = [], fitness = 0, generation = 0, validState = True\<rparr>"
  let ?c' = "\<lparr>protein = Some ''BWWBW'', setOfPoints = True, length_c = 5, encoding = [1, 1, 1],
       absPositions = [(0, 0), (0, 1), (1, 1), (1, 0), (0, 0)],
       fitness = 0, generation = 0, validState = False\<rparr>"
  have ps: "positions 5 [1, 1, 1] = [(0, 0), (0, 1), (1, 1), (1, 0), (0, 0)]"
    by (simp add: positions_def calcAbsolutePositions_step_def FORWARD_def LEFT_def RIGHT_def)
  have r: "calcValidity ?c {} = Return (?c', {})"
    by (simp add: calcValidity_cases ps)
  from calcValidity_iff_self_avoiding [of ?c "{}" ?c' "{}"] r ps show ?thesis
    by simp
qed

section \<open>Fitness\<close>

lemma contact_test_manhattan:
  "(\<bar>a\<bar> = 1 \<and> \<bar>b\<bar> = 0) \<or> (\<bar>a\<bar> = 0 \<and> \<bar>b\<bar> = 1) \<longleftrightarrow> \<bar>a\<bar> + \<bar>b\<bar> = (1::int)"
  by linarith

lemma calcFitness_inner_count:
  assumes "\<And>j. j \<in> set js \<Longrightarrow> j < length s \<and> j < length ps"
  shows "calcFitness_inner (Some s) ps ori js fit =
     Return (fit - int (length (filter (\<lambda>j. s ! j = CHR ''B'' \<and> manhattan ori (ps ! j) = 1) js)))"
  using assms
proof (induction js arbitrary: fit)
  case Nil
  then show ?case by simp
next
  case (Cons j js)
  have j: "j < length s" "j < length ps" using Cons.prems [of j] by simp_all
  have ih: "\<And>fit. calcFitness_inner (Some s) ps ori js fit =
     Return (fit - int (length (filter (\<lambda>j. s ! j = CHR ''B'' \<and> manhattan ori (ps ! j) = 1) js)))"
    using Cons.IH Cons.prems by simp
  have "calcFitness_inner (Some s) ps ori (j # js) fit =
      (if s ! j = CHR ''B''
       then calcFitness_inner (Some s) ps ori js (if manhattan ori (ps ! j) = 1 then fit - 1 else fit)
       else calcFitness_inner (Some s) ps ori js fit)"
    using j
    by (simp only: calcFitness_inner.simps getNth_def getItem_def option.case if_True
        obind.simps Let_def contact_test_manhattan manhattan_def)
  then show ?case
    by (simp add: ih)
qed

lemma calcFitness_outer_count:
  assumes "n \<le> length s" and "n \<le> length ps" and "\<And>i. i \<in> set js \<Longrightarrow> i < n"
  shows "calcFitness_outer (Some s) ps n js fit = Return (fit - sum_list (map (row_count s ps n) js))"
  using assms(3)
proof (induction js arbitrary: fit)
  case Nil
  then show ?case by simp
next
  case (Cons i js)
  have i: "i < length s" "i < length ps" using Cons.prems [of i] assms(1,2) by simp_all
  have ih: "\<And>fit. calcFitness_outer (Some s) ps n js fit =
      Return (fit - sum_list (map (row_count s ps n) js))"
    using Cons.IH Cons.prems by simp
  have inner: "\<And>fit. calcFitness_inner (Some s) ps (ps ! i) [i + 2..<n] fit =
      Return (fit - int (length (filter (\<lambda>j. s ! j = CHR ''B'' \<and> manhattan (ps ! i) (ps ! j) = 1)
        [i + 2..<n])))"
    using assms(1,2) by (intro calcFitness_inner_count) auto
  have "calcFitness_outer (Some s) ps n (i # js) fit =
      (if s ! i = CHR ''B''
       then obind (calcFitness_inner (Some s) ps (ps ! i) [i + 2..<n] fit)
              (\<lambda>fit'. calcFitness_outer (Some s) ps n js fit')
       else calcFitness_outer (Some s) ps n js fit)"
    using i
    by (simp only: calcFitness_outer.simps getNth_def getItem_def option.case if_True obind.simps)
  also have "\<dots> = Return (fit - row_count s ps n i - sum_list (map (row_count s ps n) js))"
    unfolding inner ih row_count_def by simp
  finally show ?case
    by simp
qed

lemma contacts_Sigma:
  "contacts s ps =
     (SIGMA i:{0..<length s}. {j \<in> {i + 2..<length s}. qualifies s ps i j})"
  by (auto simp: contacts_def qualifies_def)

lemma row_count_card:
  "row_count s ps n i = int (card {j \<in> {i + 2..<n}. qualifies s ps i j})"
proof -
  have "{j \<in> {i + 2..<n}. qualifies s ps i j} =
      (if s ! i = CHR ''B''
       then {j. s ! j = CHR ''B'' \<and> manhattan (ps ! i) (ps ! j) = 1} \<inter> set [i + 2..<n]
       else {})"
    by (auto simp: qualifies_def)
  then show ?thesis
    by (simp add: row_count_def distinct_length_filter)
qed

lemma card_contacts:
  "int (card (contacts s ps)) = sum_list (map (row_count s ps (length s)) [0..<length s])"
proof -
  have "card (contacts s ps) = (\<Sum>i\<in>{0..<length s}. card {j \<in> {i + 2..<length s}. qualifies s ps i j})"
    unfolding contacts_Sigma by (intro card_SigmaI) auto
  also have "int \<dots> = (\<Sum>i\<in>{0..<length s}. row_count s ps (length s) i)"
    by (simp add: row_count_card)
  also have "\<dots> = sum_list (map (row_count s ps (length s)) [0..<length s])"
    by (simp add: interv_sum_list_conv_sum_set_nat)
  finally show ?thesis .
qed

lemma calcFitness_contacts:
  assumes "protein c = Some s" and "length_c c = length s" and "length (absPositions c) = length s"
  shows "calcFitness c = Return (c\<lparr>fitness := - int (card (contacts s (absPositions c)))\<rparr>)"
proof -
  have "calcFitness_outer (Some s) (absPositions c) (length s) [0..<length s] 0 =
      Return (0 - sum_list (map (row_count s (absPositions c) (length s)) [0..<length s]))"
    using assms(3) by (intro calcFitness_outer_count) auto
  then show ?thesis
    using assms(1,2) by (simp add: calcFitness_def card_contacts)
qed

text \<open>
  C1. On a conformation whose positions have just been recomputed from its encoding,
  \<open>calcFitness\<close> returns and sets the fitness to minus the number of pairs \<open>(i, j)\<close>,
  \<open>j \<ge> i + 2\<close>, of residues both tagged \<open>B\<close> whose positions are at Manhattan distance 1.
  The fitness is therefore at most 0, and a pair with a residue of another tag is never
  counted.
\<close>

theorem calcFitness_counts_contacts:
  assumes "calcAbsolutePositions c = Return c'"
    and "protein c = Some s" and "length_c c = length s"
  shows "\<exists>c''. calcFitness c' = Return c'' \<and>
           c'' = c'\<lparr>fitness := - int (card (contacts s (absPositions c')))\<rparr> \<and>
           contacts s (absPositions c') =
             {(i, j). i + 2 \<le> j \<and> j < length s \<and> s ! i = CHR ''B'' \<and> s ! j = CHR ''B'' \<and>
                manhattan (absPositions c' ! i) (absPositions c' ! j) = 1} \<and>
           fitness c'' \<le> 0"
proof -
  from assms(1) have ok: "2 \<le> length_c c \<and> length_c c - 2 \<le> length (encoding c)"
    and c': "c' = c\<lparr>absPositions := positions (length_c c) (encoding c)\<rparr>"
    by (auto simp: calcAbsolutePositions_cases split: if_splits)
  have len: "length (absPositions c') = length s"
    using c' ok assms(3) by (simp add: length_positions)
  have "calcFitness c' = Return (c'\<lparr>fitness := - int (card (contacts s (absPositions c')))\<rparr>)"
    using assms(2,3) len c' by (intro calcFitness_contacts) simp_all
  moreover have "contacts s (absPositions c') =
      {(i, j). i + 2 \<le> j \<and> j < length s \<and> s ! i = CHR ''B'' \<and> s ! j = CHR ''B'' \<and>
         manhattan (absPositions c' ! i) (absPositions c' ! j) = 1}"
    by (auto simp: contacts_def qualifies_def)
  ultimately show ?thesis by simp
qed

theorem calcFitness_counts_contacts_witness:
  "calcFitness
     \<lparr>protein = Some ''BWWBWB'', setOfPoints = True, length_c = 6, encoding = [1, 1, 0, 1],
      absPositions = [(0, 0), (0, 1), (1, 1), (1, 0), (1, - 1), (0, - 1)],
      fitness = 0, generation = 0, validState = True\<rparr> =
   Return
     \<lparr>protein = Some ''BWWBWB'', setOfPoints = True, length_c = 6, encoding = [1, 1, 0, 1],
      absPositions = [(0, 0), (0, 1), (1, 1), (1, 0), (1, - 1), (0, - 1)],
      fitness = - 2, generation = 0, validState = True\<rparr>"
proof -
  let ?c = "\<lparr>protein = Some ''BWWBWB'', setOfPoints = True, length_c = 6, encoding = [1, 1, 0, 1],
      absPositions = [], fitness = 0, generation = 0, validState = True\<rparr>"
  let ?ps = "[(0, 0), (0, 1), (1, 1), (1, 0), (1, - 1), (0::int, - 1::int)]"
  have ps: "positions 6 [1, 1, 0, 1] = ?ps"
    by (simp add: positions_def calcAbsolutePositions_step_def FORWARD_def LEFT_def RIGHT_def)
  have r: "calcAbsolutePositions ?c = Return (?c\<lparr>absPositions := ?ps\<rparr>)"
    by (simp add: calcAbsolutePositions_cases ps)
  have n: "card (contacts ''BWWBWB'' ?ps) = 2"
    by code_simp
  from calcFitness_counts_contacts [OF r, of "''BWWBWB''"] n show ?thesis
    by simp
qed

section \<open>The crossover constructor\<close>

lemma crossover_copy_interval:
  "a \<le> b \<Longrightarrow> b \<le> length src \<Longrightarrow> b \<le> length enc \<Longrightarrow>
   crossover_copy [a..<b] src enc =
     Return (map (\<lambda>i. if a \<le> i \<and> i < b then src ! i else enc ! i) [0..<length enc])"
proof (induction "b - a" arbitrary: a enc)
  case 0
  then have "map (\<lambda>i. if a \<le> i \<and> i < b then src ! i else enc ! i) [0..<length enc] = enc"
    by (intro nth_equalityI) auto
  with 0 show ?case by simp
next
  case (Suc n)
  then have ab: "a < b" by simp
  let ?enc' = "enc[a := src ! a]"
  have ih: "crossover_copy [Suc a..<b] src ?enc' =
      Return (map (\<lambda>i. if Suc a \<le> i \<and> i < b then src ! i else ?enc' ! i) [0..<length ?enc'])"
    using Suc.hyps(1)[of "Suc a" ?enc'] Suc.hyps(2) Suc.prems ab by simp
  have "map (\<lambda>i. if Suc a \<le> i \<and> i < b then src ! i else ?enc' ! i) [0..<length ?enc'] =
      map (\<lambda>i. if a \<le> i \<and> i < b then src ! i else enc ! i) [0..<length enc]"
    using ab Suc.prems by (auto simp: nth_list_update)
  with ih show ?case
    using ab Suc.prems by (simp add: upt_conv_Cons getItem_def setItem_def)
qed

lemma crossover_copy_both:
  assumes "k \<le> m" and "length e1 = m" and "length e2 = m"
  shows "obind (crossover_copy [0..<k] e1 (replicate m 0)) (\<lambda>enc1. crossover_copy [k..<m] e2 enc1) =
     Return (take k e1 @ drop k e2)"
proof -
  let ?enc1 = "map (\<lambda>i. if 0 \<le> i \<and> i < k then e1 ! i else replicate m (0::int) ! i) [0..<m]"
  have c1: "crossover_copy [0..<k] e1 (replicate m 0) = Return ?enc1"
    using assms crossover_copy_interval [of 0 k e1 "replicate m 0"] by simp
  have c2: "crossover_copy [k..<m] e2 ?enc1 =
      Return (map (\<lambda>i. if k \<le> i \<and> i < m then e2 ! i else ?enc1 ! i) [0..<length ?enc1])"
    using assms by (intro crossover_copy_interval) simp_all
  have "map (\<lambda>i. if k \<le> i \<and> i < m then e2 ! i else ?enc1 ! i) [0..<length ?enc1] =
      take k e1 @ drop k e2"
    using assms by (intro nth_equalityI) (auto simp: nth_append)
  with c1 c2 show ?thesis by simp
qed

lemma calcValidity_fields:
  assumes "calcValidity c shared = Return (c', shared')"
  shows "encoding c' = encoding c" and "generation c' = generation c"
    and "protein c' = protein c" and "length_c c' = length_c c"
    and "fitness c' = fitness c" and "setOfPoints c' = setOfPoints c"
  using assms by (auto simp: calcValidity_cases Let_def split: if_splits)

lemma Conformation_crossover_at:
  assumes "length_c p1 = n" and "2 \<le> n"
    and "length (encoding p1) = n - 2" and "length (encoding p2) = n - 2"
    and "if 2 < n then g = DInt (int k) # g' \<and> k \<le> n - 3 else k = 0 \<and> g' = g"
  shows "\<exists>child shared'. Conformation_crossover p1 p2 sop shared g = Return (child, shared', g') \<and>
           encoding child = take k (encoding p1) @ drop k (encoding p2) \<and>
           generation child = (generation p1 + generation p2) div 2 + 1 \<and>
           protein child = protein p1 \<and> length_c child = n \<and> setOfPoints child = sop"
proof -
  let ?new = "\<lparr>protein = protein p1, setOfPoints = sop, length_c = n,
      encoding = replicate (n - 2) 0, absPositions = replicate n (0, 0),
      fitness = 0, generation = (generation p1 + generation p2) div 2 + 1,
      validState = False\<rparr>"
  let ?child = "?new\<lparr>encoding := take k (encoding p1) @ drop k (encoding p2)\<rparr>"
  have k: "k \<le> n - 2" using assms(5) by (auto split: if_splits)
  have draw: "(if int n - 2 > 0 then randint 0 (int n - 3) g else Return (0, g)) = Return (int k, g')"
    using assms(2,5) by (auto simp: randint_def split: if_splits)
  have copy: "obind (crossover_copy [0..<k] (encoding p1) (replicate (n - 2) 0))
      (\<lambda>enc1. crossover_copy [k..<n - 2] (encoding p2) enc1) =
      Return (take k (encoding p1) @ drop k (encoding p2))"
    using k assms(3,4) by (rule crossover_copy_both)
  then obtain enc1 where e1: "crossover_copy [0..<k] (encoding p1) (replicate (n - 2) 0) = Return enc1"
    and e2: "crossover_copy [k..<n - 2] (encoding p2) enc1 = Return (take k (encoding p1) @ drop k (encoding p2))"
    by (auto simp: obind_Return_iff)
  have body: "Conformation_crossover p1 p2 sop shared g =
      (if sop then obind (calcValidity ?child shared) (\<lambda>(child', shared'). Return (child', shared', g'))
       else Return (?child, shared, g'))"
    using assms(1) draw e1 e2 by (simp add: Conformation_crossover_def Let_def)
  show ?thesis
  proof (cases sop)
    case False
    with body show ?thesis by simp
  next
    case True
    have "\<exists>d s. calcValidity ?child shared = Return (d, s)"
      using assms(2,3,4) k by (simp add: calcValidity_cases Let_def)
    then obtain d s where cv: "calcValidity ?child shared = Return (d, s)" by blast
    from calcValidity_fields [OF cv] body True cv show ?thesis by simp
  qed
qed

lemma Conformation_crossover_draw:
  assumes "Conformation_crossover p1 p2 sop shared g = Return (child, shared', g')"
    and "length_c p1 = n" and "2 < n"
  shows "\<exists>k g1. g = DInt (int k) # g1 \<and> k \<le> n - 3"
proof (cases "randint 0 (int n - 3) g")
  case (Return x)
  obtain r g1 where x: "x = (r, g1)" by (cases x)
  from Return x assms(3) have "g = DInt r # g1" and "0 \<le> r" and "r \<le> int n - 3"
    by (auto simp: randint_def split: if_splits list.splits draw.splits)
  then have "g = DInt (int (nat r)) # g1 \<and> nat r \<le> n - 3" by auto
  then show ?thesis by blast
next
  case (Raise e)
  with assms show ?thesis by (simp add: Conformation_crossover_def Let_def)
next
  case Unfinished
  with assms show ?thesis by (simp add: Conformation_crossover_def Let_def)
qed

text \<open>
  C5. For parents of common residue count \<open>n \<ge> 2\<close> with encodings of \<open>n - 2\<close> symbols, a
  call of the constructor that returns has consumed, when \<open>n > 2\<close>, exactly one integer
  draw \<open>k\<close> with \<open>0 \<le> k \<le> n - 3\<close>, and none when \<open>n = 2\<close>, where \<open>k = 0\<close>. It returns one
  child: its encoding has \<open>n - 2\<close> symbols, the first \<open>k\<close> of parent A followed by those of
  parent B from \<open>k\<close> on, and its generation is \<open>(gA + gB) div 2 + 1\<close>. On the same draw,
  the call with the parents exchanged returns the complementary child, with the two
  sides exchanged and the same generation. Conversely the constructor returns on every
  such draw. That the draw is uniform is a property of \<open>random.randint\<close>, outside the
  model.
\<close>

theorem Conformation_crossover_breakpoint:
  assumes "length_c p1 = n" and "length_c p2 = n" and "2 \<le> n"
    and "length (encoding p1) = n - 2" and "length (encoding p2) = n - 2"
  shows "(Conformation_crossover p1 p2 sop shared g = Return (child, shared', g') \<longrightarrow>
           (\<exists>k. (if 2 < n then g = DInt (int k) # g' \<and> k \<le> n - 3 else k = 0 \<and> g' = g) \<and>
              length (encoding child) = n - 2 \<and>
              encoding child = take k (encoding p1) @ drop k (encoding p2) \<and>
              generation child = (generation p1 + generation p2) div 2 + 1 \<and>
              (\<exists>child2 shared2.
                 Conformation_crossover p2 p1 sop shared g = Return (child2, shared2, g') \<and>
                 encoding child2 = take k (encoding p2) @ drop k (encoding p1) \<and>
                 generation child2 = generation child))) \<and>
         ((if 2 < n then g = DInt (int k) # g' \<and> k \<le> n - 3 else k = 0 \<and> g' = g) \<longrightarrow>
           (\<exists>child shared' child2 shared2.
              Conformation_crossover p1 p2 sop shared g = Return (child, shared', g') \<and>
              length (encoding child) = n - 2 \<and>
              encoding child = take k (encoding p1) @ drop k (encoding p2) \<and>
              generation child = (generation p1 + generation p2) div 2 + 1 \<and>
              Conformation_crossover p2 p1 sop shared g = Return (child2, shared2, g') \<and>
              encoding child2 = take k (encoding p2) @ drop k (encoding p1) \<and>
              generation child2 = generation child))"
proof -
  have at: "\<exists>child shared' child2 shared2.
      Conformation_crossover p1 p2 sop shared g = Return (child, shared', g1) \<and>
      length (encoding child) = n - 2 \<and>
      encoding child = take j (encoding p1) @ drop j (encoding p2) \<and>
      generation child = (generation p1 + generation p2) div 2 + 1 \<and>
      Conformation_crossover p2 p1 sop shared g = Return (child2, shared2, g1) \<and>
      encoding child2 = take j (encoding p2) @ drop j (encoding p1) \<and>
      generation child2 = generation child"
    if dc: "if 2 < n then g = DInt (int j) # g1 \<and> j \<le> n - 3 else j = 0 \<and> g1 = g" for j g1
  proof -
    have j: "j \<le> n - 2" using dc by (auto split: if_splits)
    obtain c s where a: "Conformation_crossover p1 p2 sop shared g = Return (c, s, g1)"
      "encoding c = take j (encoding p1) @ drop j (encoding p2)"
      "generation c = (generation p1 + generation p2) div 2 + 1"
      using Conformation_crossover_at [OF assms(1,3,4,5) dc, of sop shared] by blast
    obtain c2 s2 where b: "Conformation_crossover p2 p1 sop shared g = Return (c2, s2, g1)"
      "encoding c2 = take j (encoding p2) @ drop j (encoding p1)"
      "generation c2 = (generation p2 + generation p1) div 2 + 1"
      using Conformation_crossover_at [OF assms(2,3,5,4) dc, of sop shared] by blast
    have "length (encoding c) = n - 2"
      using a(2) j assms(4,5) by simp
    with a b show ?thesis by (simp add: add.commute)
  qed
  have fwd: "\<exists>k. (if 2 < n then g = DInt (int k) # g' \<and> k \<le> n - 3 else k = 0 \<and> g' = g) \<and>
      length (encoding child) = n - 2 \<and>
      encoding child = take k (encoding p1) @ drop k (encoding p2) \<and>
      generation child = (generation p1 + generation p2) div 2 + 1 \<and>
      (\<exists>child2 shared2.
         Conformation_crossover p2 p1 sop shared g = Return (child2, shared2, g') \<and>
         encoding child2 = take k (encoding p2) @ drop k (encoding p1) \<and>
         generation child2 = generation child)"
    if r: "Conformation_crossover p1 p2 sop shared g = Return (child, shared', g')"
  proof -
    obtain j g1 where dc: "if 2 < n then g = DInt (int j) # g1 \<and> j \<le> n - 3 else j = 0 \<and> g1 = g"
    proof (cases "2 < n")
      case True
      from Conformation_crossover_draw [OF r assms(1) True]
      obtain j g1 where "g = DInt (int j) # g1" and "j \<le> n - 3" by blast
      with True have "if 2 < n then g = DInt (int j) # g1 \<and> j \<le> n - 3 else j = 0 \<and> g1 = g"
        by simp
      then show ?thesis by (rule that)
    next
      case False
      then have "if 2 < n then g = DInt (int 0) # g \<and> 0 \<le> n - 3 else (0::nat) = 0 \<and> g = g"
        by simp
      then show ?thesis by (rule that)
    qed
    from at [OF dc] obtain c s c2 s2 where c:
      "Conformation_crossover p1 p2 sop shared g = Return (c, s, g1)"
      "length (encoding c) = n - 2"
      "encoding c = take j (encoding p1) @ drop j (encoding p2)"
      "generation c = (generation p1 + generation p2) div 2 + 1"
      "Conformation_crossover p2 p1 sop shared g = Return (c2, s2, g1)"
      "encoding c2 = take j (encoding p2) @ drop j (encoding p1)"
      "generation c2 = generation c"
      by blast
    from c(1) r have eq: "c = child" "g1 = g'" by simp_all
    have d1: "if 2 < n then g = DInt (int j) # g' \<and> j \<le> n - 3 else j = 0 \<and> g' = g"
      using dc eq(2) by (auto split: if_splits)
    have d2: "length (encoding child) = n - 2"
      and d3: "encoding child = take j (encoding p1) @ drop j (encoding p2)"
      and d4: "generation child = (generation p1 + generation p2) div 2 + 1"
      using c(2,3,4) eq(1) by simp_all
    have d5: "\<exists>child2 shared2.
         Conformation_crossover p2 p1 sop shared g = Return (child2, shared2, g') \<and>
         encoding child2 = take j (encoding p2) @ drop j (encoding p1) \<and>
         generation child2 = generation child"
      using c(5,6,7) eq by (intro exI [of _ c2] exI [of _ s2]) simp
    show ?thesis
      by (rule exI [of _ j]) (intro conjI d1 d2 d3 d4 d5)
  qed
  show ?thesis
  proof (intro conjI impI)
    assume "Conformation_crossover p1 p2 sop shared g = Return (child, shared', g')"
    then show "\<exists>k. (if 2 < n then g = DInt (int k) # g' \<and> k \<le> n - 3 else k = 0 \<and> g' = g) \<and>
      length (encoding child) = n - 2 \<and>
      encoding child = take k (encoding p1) @ drop k (encoding p2) \<and>
      generation child = (generation p1 + generation p2) div 2 + 1 \<and>
      (\<exists>child2 shared2.
         Conformation_crossover p2 p1 sop shared g = Return (child2, shared2, g') \<and>
         encoding child2 = take k (encoding p2) @ drop k (encoding p1) \<and>
         generation child2 = generation child)"
      by (rule fwd)
  next
    assume "if 2 < n then g = DInt (int k) # g' \<and> k \<le> n - 3 else k = 0 \<and> g' = g"
    then show "\<exists>child shared' child2 shared2.
      Conformation_crossover p1 p2 sop shared g = Return (child, shared', g') \<and>
      length (encoding child) = n - 2 \<and>
      encoding child = take k (encoding p1) @ drop k (encoding p2) \<and>
      generation child = (generation p1 + generation p2) div 2 + 1 \<and>
      Conformation_crossover p2 p1 sop shared g = Return (child2, shared2, g') \<and>
      encoding child2 = take k (encoding p2) @ drop k (encoding p1) \<and>
      generation child2 = generation child"
      by (rule at)
  qed
qed

theorem Conformation_crossover_breakpoint_witness:
  "\<exists>child shared' child2 shared2.
     Conformation_crossover example_RRFF example_LLFR True {} [DInt 1] = Return (child, shared', []) \<and>
     encoding child = [1, - 1, 0, 1] \<and> generation child = 1 \<and>
     Conformation_crossover example_LLFR example_RRFF True {} [DInt 1] = Return (child2, shared2, []) \<and>
     encoding child2 = [- 1, 1, 0, 0] \<and> generation child2 = 1"
proof -
  have a: "length_c example_RRFF = 6" "length_c example_LLFR = 6"
    "length (encoding example_RRFF) = 6 - 2" "length (encoding example_LLFR) = 6 - 2"
    by (simp_all add: example_RRFF_def example_LLFR_def example_member_def)
  have n: "2 \<le> (6::nat)" by simp
  have b: "if 2 < (6::nat) then [DInt 1] = DInt (int 1) # [] \<and> (1::nat) \<le> 6 - 3
           else (1::nat) = 0 \<and> [] = [DInt 1]"
    by simp
  have e: "take 1 (encoding example_RRFF) @ drop 1 (encoding example_LLFR) = [1, - 1, 0, 1]"
    "take 1 (encoding example_LLFR) @ drop 1 (encoding example_RRFF) = [- 1, 1, 0, 0]"
    "(generation example_RRFF + generation example_LLFR) div 2 + 1 = 1"
    by (simp_all add: example_RRFF_def example_LLFR_def example_member_def)
  note t = Conformation_crossover_breakpoint [OF a(1,2) n a(3,4),
      where g = "[DInt 1]" and k = 1 and g' = "[]" and sop = True and shared = "{}"]
  from t [THEN conjunct2, THEN mp, OF b]
  show ?thesis unfolding e by auto
qed

section \<open>Tournament selection\<close>

lemma tournamentSelect_min_least:
  "tournamentSelect_min inds best js \<in> set (best # js) \<and>
   (\<forall>j \<in> set (best # js). fitness (inds ! tournamentSelect_min inds best js) \<le> fitness (inds ! j))"
proof (induction js arbitrary: best)
  case Nil
  then show ?case by simp
next
  case (Cons j js)
  let ?b = "if fitness (inds ! j) < fitness (inds ! best) then j else best"
  from Cons.IH [of ?b]
  have in_set: "tournamentSelect_min inds ?b js \<in> set (?b # js)"
    and least: "\<forall>i \<in> set (?b # js). fitness (inds ! tournamentSelect_min inds ?b js) \<le> fitness (inds ! i)"
    by blast+
  from least have "fitness (inds ! tournamentSelect_min inds ?b js) \<le> fitness (inds ! ?b)"
    by simp
  then have "fitness (inds ! tournamentSelect_min inds ?b js) \<le> fitness (inds ! j)"
    and "fitness (inds ! tournamentSelect_min inds ?b js) \<le> fitness (inds ! best)"
    by (auto split: if_splits)
  with in_set least show ?case
    by (auto split: if_splits)
qed

lemma tournamentSelect_Return:
  assumes "tournamentSelect k pop g = Return (b, g')"
  shows "\<exists>js. g = DSample js # g' \<and> int (length js) = k \<and> distinct js \<and>
           list_all (\<lambda>j. j < length (individuals pop)) js \<and> b \<in> set js \<and>
           (\<forall>j \<in> set js. fitness (individuals pop ! b) \<le> fitness (individuals pop ! j))"
proof -
  from assms obtain js g1 where s0: "sample (length (individuals pop)) k g = Return (js, g1)"
    and r0: "(case js of [] \<Rightarrow> Raise ValueError
              | j # js' \<Rightarrow> Return (tournamentSelect_min (individuals pop) j js', g1)) = Return (b, g')"
    unfolding tournamentSelect_def obind_Return_iff by auto
  from r0 obtain j js' where js: "js = j # js'"
    and b: "b = tournamentSelect_min (individuals pop) j js'" and g1: "g1 = g'"
    by (cases js) auto
  from s0 g1 have s: "sample (length (individuals pop)) k g = Return (js, g')" by simp
  from s have g: "g = DSample js # g'" and len: "int (length js) = k" and d: "distinct js"
    and rng: "list_all (\<lambda>j. j < length (individuals pop)) js"
    by (auto simp: sample_def split: if_splits list.splits draw.splits)
  from tournamentSelect_min_least [of "individuals pop" j js'] js b
  have "b \<in> set js" and "\<forall>i \<in> set js. fitness (individuals pop ! b) \<le> fitness (individuals pop ! i)"
    by simp_all
  with g len d rng show ?thesis by blast
qed

lemma tournamentSelect_in_range:
  assumes "tournamentSelect k pop g = Return (b, g')"
  shows "b < length (individuals pop)"
  using tournamentSelect_Return [OF assms] by (auto simp: list_all_iff)

text \<open>
  C7. When \<open>tournamentSelect\<close> returns, the draw was a sample of \<open>tournament_size\<close>
  distinct positions of the current individuals, and the result is one of the sampled
  members, of fitness no greater than any sampled member's: a member currently present
  in the population. It does return on every such sample when the member count is at
  least the tournament size (which is at least 1, 3 by default). That the sample is
  uniform is a property of \<open>random.sample\<close>, outside the model.
\<close>

theorem tournamentSelect_best_of_sample:
  "(tournamentSelect k pop g = Return (b, g') \<longrightarrow>
      (\<exists>js. g = DSample js # g' \<and> int (length js) = k \<and> distinct js \<and>
         (\<forall>j \<in> set js. j < length (individuals pop) \<and>
            fitness (individuals pop ! b) \<le> fitness (individuals pop ! j)) \<and>
         b \<in> set js \<and> b < length (individuals pop) \<and>
         individuals pop ! b \<in> set (individuals pop))) \<and>
   (1 \<le> k \<and> k \<le> int (length (individuals pop)) \<and> int (length js) = k \<and> distinct js \<and>
    (\<forall>j \<in> set js. j < length (individuals pop)) \<longrightarrow>
      (\<exists>b'. tournamentSelect k pop (DSample js # g') = Return (b', g')))"
proof (intro conjI impI)
  assume r: "tournamentSelect k pop g = Return (b, g')"
  from tournamentSelect_Return [OF r] obtain js' where
    js': "g = DSample js' # g'" "int (length js') = k" "distinct js'"
    "list_all (\<lambda>j. j < length (individuals pop)) js'" "b \<in> set js'"
    "\<forall>j \<in> set js'. fitness (individuals pop ! b) \<le> fitness (individuals pop ! j)"
    by blast
  have "b < length (individuals pop)" using r by (rule tournamentSelect_in_range)
  then have "individuals pop ! b \<in> set (individuals pop)" by simp
  with js' \<open>b < length (individuals pop)\<close>
  show "\<exists>js. g = DSample js # g' \<and> int (length js) = k \<and> distinct js \<and>
         (\<forall>j \<in> set js. j < length (individuals pop) \<and>
            fitness (individuals pop ! b) \<le> fitness (individuals pop ! j)) \<and>
         b \<in> set js \<and> b < length (individuals pop) \<and>
         individuals pop ! b \<in> set (individuals pop)"
    by (auto simp: list_all_iff)
next
  assume a: "1 \<le> k \<and> k \<le> int (length (individuals pop)) \<and> int (length js) = k \<and> distinct js \<and>
    (\<forall>j \<in> set js. j < length (individuals pop))"
  then obtain j js' where "js = j # js'" by (cases js) auto
  with a show "\<exists>b'. tournamentSelect k pop (DSample js # g') = Return (b', g')"
    by (auto simp: tournamentSelect_def sample_def list_all_iff)
qed

theorem tournamentSelect_best_of_sample_witness:
  "tournamentSelect 3 example_population_improved [DSample [2, 1, 0]] = Return (0, []) \<and>
   individuals example_population_improved ! 0 \<in> set (individuals example_population_improved) \<and>
   (\<exists>b. tournamentSelect 3 example_population_improved [DSample [1, 2, 0]] = Return (b, []))"
proof -
  have r: "tournamentSelect 3 example_population_improved [DSample [2, 1, 0]] = Return (0, [])"
    by code_simp
  have l: "length (individuals example_population_improved) = 3"
    by (simp add: example_population_improved_def)
  from tournamentSelect_best_of_sample
    [of 3 example_population_improved "[DSample [2, 1, 0]]" 0 "[]" "[1, 2, 0]"] r l
  show ?thesis by simp
qed

section \<open>One child, one generation step\<close>

lemma calcValidity_self_avoiding:
  assumes "calcValidity c shared = Return (c', shared')" and "validState c'"
  shows "self_avoiding c'"
  using assms by (auto simp: calcValidity_cases self_avoiding_def Let_def split: if_splits)

lemma calcFitness_inner_le:
  "calcFitness_inner p ps ori js fit = Return r \<Longrightarrow> r \<le> fit"
proof (induction js arbitrary: fit)
  case Nil
  then show ?case by simp
next
  case (Cons j js)
  show ?case
  proof (cases "getNth p j")
    case (Return a)
    show ?thesis
    proof (cases "a = CHR ''B''")
      case False
      with Cons.prems Return have "calcFitness_inner p ps ori js fit = Return r" by simp
      then show ?thesis by (rule Cons.IH)
    next
      case True
      show ?thesis
      proof (cases "getItem ps j")
        case dest: (Return dest)
        define fit' where "fit' =
          (if (\<bar>fst ori - fst dest\<bar> = 1 \<and> \<bar>snd ori - snd dest\<bar> = 0) \<or>
              (\<bar>fst ori - fst dest\<bar> = 0 \<and> \<bar>snd ori - snd dest\<bar> = 1) then fit - 1 else fit)"
        have f: "fit' \<le> fit" by (simp add: fit'_def)
        have r: "calcFitness_inner p ps ori (j # js) fit = calcFitness_inner p ps ori js fit'"
          using Return True dest unfolding fit'_def
          by (simp only: calcFitness_inner.simps obind.simps Let_def simp_thms if_True)
        from r Cons.prems have "calcFitness_inner p ps ori js fit' = Return r" by simp
        from Cons.IH [OF this] f show ?thesis by simp
      next
        case (Raise e)
        with Cons.prems Return True show ?thesis by simp
      next
        case Unfinished
        with Cons.prems Return True show ?thesis by simp
      qed
    qed
  next
    case (Raise e)
    with Cons.prems show ?thesis by simp
  next
    case Unfinished
    with Cons.prems show ?thesis by simp
  qed
qed

lemma calcFitness_outer_le:
  "calcFitness_outer p ps n js fit = Return r \<Longrightarrow> r \<le> fit"
proof (induction js arbitrary: fit)
  case Nil
  then show ?case by simp
next
  case (Cons i js)
  show ?case
  proof (cases "getNth p i")
    case (Return a)
    show ?thesis
    proof (cases "a = CHR ''B''")
      case False
      with Cons.prems Return have "calcFitness_outer p ps n js fit = Return r" by simp
      then show ?thesis by (rule Cons.IH)
    next
      case True
      show ?thesis
      proof (cases "getItem ps i")
        case ori: (Return ori)
        show ?thesis
        proof (cases "calcFitness_inner p ps ori [i + 2..<n] fit")
          case inner: (Return fit')
          have f: "fit' \<le> fit" using inner by (rule calcFitness_inner_le)
          have "calcFitness_outer p ps n js fit' = Return r"
            using Cons.prems Return True ori inner by simp
          from Cons.IH [OF this] f show ?thesis by simp
        next
          case (Raise e)
          with Cons.prems Return True ori show ?thesis by simp
        next
          case Unfinished
          with Cons.prems Return True ori show ?thesis by simp
        qed
      next
        case (Raise e)
        with Cons.prems Return True show ?thesis by simp
      next
        case Unfinished
        with Cons.prems Return True show ?thesis by simp
      qed
    qed
  next
    case (Raise e)
    with Cons.prems show ?thesis by simp
  next
    case Unfinished
    with Cons.prems show ?thesis by simp
  qed
qed

lemma calcFitness_Return:
  assumes "calcFitness c = Return c'"
  shows "\<exists>f \<le> 0. c' = c\<lparr>fitness := f\<rparr>"
proof (cases "calcFitness_outer (protein c) (absPositions c) (length_c c) [0..<length_c c] 0")
  case (Return f)
  then have "f \<le> 0" by (rule calcFitness_outer_le)
  moreover have "c' = c\<lparr>fitness := f\<rparr>" using assms Return by (simp add: calcFitness_def)
  ultimately show ?thesis by blast
next
  case (Raise e)
  with assms show ?thesis by (simp add: calcFitness_def)
next
  case Unfinished
  with assms show ?thesis by (simp add: calcFitness_def)
qed

lemma offer_child_Return:
  assumes "offer_child child own other pop g = Return (pop', g')"
  shows "\<exists>shared. pop' = pop\<lparr>collisionSet := shared\<rparr> \<or>
           (\<exists>c3. validState c3 \<and> self_avoiding c3 \<and>
              getConformationString c3 \<notin> setOfConformations pop \<and>
              pop' = replace_parent c3 own other
                (pop\<lparr>collisionSet := shared,
                     setOfConformations := insert (getConformationString c3) (setOfConformations pop)\<rparr>))"
proof -
  obtain c1 g1 where m: "mutate (mutProb pop) child g = Return (c1, g1)"
    using assms by (cases "mutate (mutProb pop) child g") (auto simp: offer_child_def)
  obtain c2 shared where cv: "calcValidity c1 (collisionSet pop) = Return (c2, shared)"
    using assms m by (cases "calcValidity c1 (collisionSet pop)") (auto simp: offer_child_def)
  have rest: "(if validState c2 then
         obind (calcFitness c2) (\<lambda>c3.
           case isInsertable c3 (pop\<lparr>collisionSet := shared\<rparr>) of
             (ok, pop2) \<Rightarrow> Return (if ok then replace_parent c3 own other pop2 else pop2, g1))
       else Return (pop\<lparr>collisionSet := shared\<rparr>, g1)) = Return (pop', g')"
    using assms m cv by (simp add: offer_child_def Let_def)
  show ?thesis
  proof (cases "validState c2")
    case False
    with rest show ?thesis by auto
  next
    case True
    with rest obtain c3 where cf: "calcFitness c2 = Return c3"
      and ins: "(case isInsertable c3 (pop\<lparr>collisionSet := shared\<rparr>) of
             (ok, pop2) \<Rightarrow> Return (if ok then replace_parent c3 own other pop2 else pop2, g1)) = Return (pop', g')"
      by (cases "calcFitness c2") auto
    from calcFitness_Return [OF cf] obtain f where c3: "c3 = c2\<lparr>fitness := f\<rparr>" by blast
    have sa: "self_avoiding c2" using cv True by (rule calcValidity_self_avoiding)
    have v3: "validState c3" "self_avoiding c3"
      using True sa c3 by (auto simp: self_avoiding_def)
    show ?thesis
    proof (cases "getConformationString c3 \<in> setOfConformations pop")
      case True
      with ins show ?thesis by (auto simp: isInsertable_def Let_def)
    next
      case False
      with ins have "pop' = replace_parent c3 own other
          (pop\<lparr>collisionSet := shared,
               setOfConformations := insert (getConformationString c3) (setOfConformations pop)\<rparr>)"
        by (auto simp: isInsertable_def Let_def)
      with v3 False show ?thesis by blast
    qed
  qed
qed

lemma replaces_within_refl: "replaces_within S pop pop"
  by (simp add: replaces_within_def list_all_iff)

lemma replaces_within_trans:
  assumes "replaces_within S pop pop'" and "replaces_within S pop' pop''"
  shows "replaces_within S pop pop''"
proof -
  have len: "length (individuals pop') = length (individuals pop)"
    using assms(1) by (simp add: replaces_within_def)
  have "individuals pop'' ! i = individuals pop ! i \<or>
      (i \<in> S \<and> fitness (individuals pop'' ! i) < fitness (individuals pop ! i))"
    if i: "i < length (individuals pop)" for i
  proof -
    have a: "individuals pop' ! i = individuals pop ! i \<or>
        (i \<in> S \<and> fitness (individuals pop' ! i) < fitness (individuals pop ! i))"
      using assms(1) i by (simp add: replaces_within_def list_all_iff)
    have b: "individuals pop'' ! i = individuals pop' ! i \<or>
        (i \<in> S \<and> fitness (individuals pop'' ! i) < fitness (individuals pop' ! i))"
      using assms(2) i len by (simp add: replaces_within_def list_all_iff)
    from a b show ?thesis by (elim disjE conjE) simp_all
  qed
  then have "list_all (\<lambda>i. individuals pop'' ! i = individuals pop ! i \<or>
      (i \<in> S \<and> fitness (individuals pop'' ! i) < fitness (individuals pop ! i)))
      [0..<length (individuals pop)]"
    by (simp add: list_all_iff)
  moreover have "length (individuals pop'') = length (individuals pop)"
    "theFittest pop'' = theFittest pop" "size_p pop'' = size_p pop"
    "setOfConformations pop \<subseteq> setOfConformations pop''"
    using assms by (auto simp: replaces_within_def)
  ultimately show ?thesis by (simp add: replaces_within_def)
qed

lemma replaces_within_fields:
  assumes "individuals pop' = individuals pop" and "theFittest pop' = theFittest pop"
    and "size_p pop' = size_p pop" and "setOfConformations pop \<subseteq> setOfConformations pop'"
  shows "replaces_within S pop pop'"
  using assms by (simp add: replaces_within_def list_all_iff)

lemma replaces_within_replace_parent:
  assumes "own < length (individuals pop)" and "other < length (individuals pop)"
  shows "replaces_within {own, other} pop (replace_parent c own other pop)"
  using assms by (auto simp: replaces_within_def replace_parent_def list_all_iff nth_list_update)

lemma offer_child_replaces_within:
  assumes "offer_child child own other pop g = Return (pop', g')"
    and "own < length (individuals pop)" and "other < length (individuals pop)"
  shows "replaces_within {own, other} pop pop'"
proof -
  from offer_child_Return [OF assms(1)] obtain shared where
    "pop' = pop\<lparr>collisionSet := shared\<rparr> \<or>
       (\<exists>c3. pop' = replace_parent c3 own other
          (pop\<lparr>collisionSet := shared,
               setOfConformations := insert (getConformationString c3) (setOfConformations pop)\<rparr>))"
    by blast
  then show ?thesis
  proof
    assume "pop' = pop\<lparr>collisionSet := shared\<rparr>"
    then show ?thesis by (intro replaces_within_fields) simp_all
  next
    assume "\<exists>c3. pop' = replace_parent c3 own other
          (pop\<lparr>collisionSet := shared,
               setOfConformations := insert (getConformationString c3) (setOfConformations pop)\<rparr>)"
    then obtain c3 where p: "pop' = replace_parent c3 own other
          (pop\<lparr>collisionSet := shared,
               setOfConformations := insert (getConformationString c3) (setOfConformations pop)\<rparr>)"
      by blast
    let ?pop1 = "pop\<lparr>collisionSet := shared,
               setOfConformations := insert (getConformationString c3) (setOfConformations pop)\<rparr>"
    have a: "replaces_within {own, other} pop ?pop1"
      by (intro replaces_within_fields) auto
    have b: "replaces_within {own, other} ?pop1 pop'"
      unfolding p using assms(2,3) by (intro replaces_within_replace_parent) simp_all
    from a b show ?thesis by (rule replaces_within_trans)
  qed
qed

lemma distinct_map_update:
  assumes "distinct (map f xs)" and "f y \<notin> f ` set xs"
  shows "distinct (map f (xs[i := y]))"
proof (cases "i < length xs")
  case False
  then have "xs[i := y] = xs" by (simp add: list_update_beyond)
  with assms(1) show ?thesis by simp
next
  case True
  have "map f (xs[i := y]) = (map f xs)[i := f y]" by (simp add: map_update)
  moreover have "distinct ((map f xs)[i := f y])"
    using assms True by (intro distinct_list_update) auto
  ultimately show ?thesis by simp
qed

lemma population_ok_update:
  assumes "population_ok pop" and "i < length (individuals pop)" and "member_ok c"
    and "getConformationString c \<notin> setOfConformations pop"
  shows "population_ok
     (pop\<lparr>collisionSet := shared,
          setOfConformations := insert (getConformationString c) (setOfConformations pop),
          individuals := (individuals pop)[i := c]\<rparr>)"
proof -
  have nin: "getConformationString c \<notin> getConformationString ` set (individuals pop)"
    using assms(1,4) by (auto simp: population_ok_def)
  have d: "distinct (map getConformationString ((individuals pop)[i := c]))"
    using assms(1) nin by (intro distinct_map_update) (simp_all add: population_ok_def)
  have m: "list_all member_ok ((individuals pop)[i := c])"
    using assms(1,2,3) by (auto simp: population_ok_def list_all_length nth_list_update)
  have s: "getConformationString ` set ((individuals pop)[i := c]) \<subseteq>
      insert (getConformationString c) (setOfConformations pop)"
    using assms(1) set_update_subset_insert [of "individuals pop" i c]
    by (auto simp: population_ok_def)
  from d m s assms(1) show ?thesis by (simp add: population_ok_def)
qed

lemma population_ok_offer_child:
  assumes "offer_child child own other pop g = Return (pop', g')"
    and "population_ok pop"
    and "own < length (individuals pop)" and "other < length (individuals pop)"
  shows "population_ok pop'"
proof -
  from offer_child_Return [OF assms(1)] obtain shared where
    "pop' = pop\<lparr>collisionSet := shared\<rparr> \<or>
           (\<exists>c3. validState c3 \<and> self_avoiding c3 \<and>
              getConformationString c3 \<notin> setOfConformations pop \<and>
              pop' = replace_parent c3 own other
                (pop\<lparr>collisionSet := shared,
                     setOfConformations := insert (getConformationString c3) (setOfConformations pop)\<rparr>))"
    by blast
  then show ?thesis
  proof
    assume "pop' = pop\<lparr>collisionSet := shared\<rparr>"
    with assms(2) show ?thesis by (simp add: population_ok_def)
  next
    assume "\<exists>c3. validState c3 \<and> self_avoiding c3 \<and>
              getConformationString c3 \<notin> setOfConformations pop \<and>
              pop' = replace_parent c3 own other
                (pop\<lparr>collisionSet := shared,
                     setOfConformations := insert (getConformationString c3) (setOfConformations pop)\<rparr>)"
    then obtain c3 where v: "validState c3" "self_avoiding c3"
      and new: "getConformationString c3 \<notin> setOfConformations pop"
      and p: "pop' = replace_parent c3 own other
                (pop\<lparr>collisionSet := shared,
                     setOfConformations := insert (getConformationString c3) (setOfConformations pop)\<rparr>)"
      by blast
    have neg: "\<And>i. i < length (individuals pop) \<Longrightarrow> fitness (individuals pop ! i) < 0"
      using assms(2) by (simp add: population_ok_def list_all_length member_ok_def)
    have keep: "population_ok (pop\<lparr>collisionSet := shared,
        setOfConformations := insert (getConformationString c3) (setOfConformations pop)\<rparr>)"
      using assms(2) by (auto simp: population_ok_def)
    have upd: "\<And>i. i < length (individuals pop) \<Longrightarrow> fitness c3 < fitness (individuals pop ! i) \<Longrightarrow>
        population_ok (pop\<lparr>collisionSet := shared,
          setOfConformations := insert (getConformationString c3) (setOfConformations pop),
          individuals := (individuals pop)[i := c3]\<rparr>)"
    proof -
      fix i assume i: "i < length (individuals pop)" and f: "fitness c3 < fitness (individuals pop ! i)"
      have "member_ok c3" using v f neg [OF i] by (simp add: member_ok_def)
      with assms(2) i new show "population_ok (pop\<lparr>collisionSet := shared,
          setOfConformations := insert (getConformationString c3) (setOfConformations pop),
          individuals := (individuals pop)[i := c3]\<rparr>)"
        by (intro population_ok_update)
    qed
    show ?thesis
      unfolding p replace_parent_def using keep upd [OF assms(3)] upd [OF assms(4)]
      by simp
  qed
qed

section \<open>A generation step\<close>

lemma crossover_offspring_Return:
  assumes "crossover_offspring p1 p2 pop g = Return (pop', g')"
  obtains child1 child2 shared2 g2 pop3 g3 pop4 where
    "offer_child child1 p1 p2 (pop\<lparr>collisionSet := shared2\<rparr>) g2 = Return (pop3, g3)"
    and "offer_child child2 p2 p1 pop3 g3 = Return (pop4, g')"
    and "pop' = refresh_fittest p1 p2 pop4"
proof -
  obtain child1 shared1 g1 where c1:
    "Conformation_crossover (individuals pop ! p1) (individuals pop ! p2) True (collisionSet pop) g =
       Return (child1, shared1, g1)"
    using assms
    by (cases "Conformation_crossover (individuals pop ! p1) (individuals pop ! p2) True
          (collisionSet pop) g") (auto simp: crossover_offspring_def)
  obtain child2 shared2 g2 where c2:
    "Conformation_crossover (individuals pop ! p2) (individuals pop ! p1) True shared1 g1 =
       Return (child2, shared2, g2)"
    using assms c1
    by (cases "Conformation_crossover (individuals pop ! p2) (individuals pop ! p1) True shared1 g1")
      (auto simp: crossover_offspring_def)
  obtain pop3 g3 where o1:
    "offer_child child1 p1 p2 (pop\<lparr>collisionSet := shared2\<rparr>) g2 = Return (pop3, g3)"
    using assms c1 c2
    by (cases "offer_child child1 p1 p2 (pop\<lparr>collisionSet := shared2\<rparr>) g2")
      (auto simp: crossover_offspring_def)
  obtain pop4 g4 where o2: "offer_child child2 p2 p1 pop3 g3 = Return (pop4, g4)"
    using assms c1 c2 o1
    by (cases "offer_child child2 p2 p1 pop3 g3") (auto simp: crossover_offspring_def)
  have "pop' = refresh_fittest p1 p2 pop4" and "g4 = g'"
    using assms c1 c2 o1 o2 by (simp_all add: crossover_offspring_def)
  with o1 o2 show thesis by (intro that) simp_all
qed

lemma Population_crossover_Return:
  assumes "Population_crossover pop g = Return (pop', g')"
  obtains (skip1) p1 where "p1 < length (individuals pop)" and "pop' = pop\<lparr>parent1 := Some p1\<rparr>"
  | (skip2) p1 p2 where "p1 < length (individuals pop)" and "p2 < length (individuals pop)"
      and "pop' = pop\<lparr>parent1 := Some p1, parent2 := Some p2\<rparr>"
  | (full) p1 p2 child1 child2 shared2 g6 pop3 g7 pop4 where
      "p1 < length (individuals pop)" and "p2 < length (individuals pop)"
      and "offer_child child1 p1 p2
             (pop\<lparr>parent1 := Some p1, parent2 := Some p2, collisionSet := shared2\<rparr>) g6 =
           Return (pop3, g7)"
      and "offer_child child2 p2 p1 pop3 g7 = Return (pop4, g')"
      and "pop' = refresh_fittest p1 p2 pop4"
proof -
  obtain p1 g1 where t1: "tournamentSelect 3 pop g = Return (p1, g1)"
    using assms by (cases "tournamentSelect 3 pop g") (auto simp: Population_crossover_def)
  have p1: "p1 < length (individuals pop)" using t1 by (rule tournamentSelect_in_range)
  let ?pop1 = "pop\<lparr>parent1 := Some p1\<rparr>"
  obtain r1 g2 where f1: "random_random g1 = Return (r1, g2)"
    using assms t1 by (cases "random_random g1") (auto simp: Population_crossover_def Let_def)
  show thesis
  proof (cases "crossProb pop < r1")
    case True
    then have "pop' = ?pop1"
      using assms t1 f1 by (simp add: Population_crossover_def Let_def)
    with p1 show thesis by (rule skip1)
  next
    case no1: False
    obtain p2 g3 where t2: "tournamentSelect 3 ?pop1 g2 = Return (p2, g3)"
      using assms t1 f1 no1
      by (cases "tournamentSelect 3 ?pop1 g2") (auto simp: Population_crossover_def Let_def)
    have p2: "p2 < length (individuals pop)" using tournamentSelect_in_range [OF t2] by simp
    let ?pop2 = "pop\<lparr>parent1 := Some p1, parent2 := Some p2\<rparr>"
    obtain r2 g4 where f2: "random_random g3 = Return (r2, g4)"
      using assms t1 f1 no1 t2
      by (cases "random_random g3") (auto simp: Population_crossover_def Let_def)
    show thesis
    proof (cases "crossProb pop < r2")
      case True
      then have "pop' = ?pop2"
        using assms t1 f1 no1 t2 f2 by (simp add: Population_crossover_def Let_def)
      with p1 p2 show thesis by (rule skip2)
    next
      case no2: False
      have off: "crossover_offspring p1 p2 ?pop2 g4 = Return (pop', g')"
        using assms t1 f1 no1 t2 f2 no2 by (simp add: Population_crossover_def Let_def)
      from off obtain child1 child2 shared2 g6 pop3 g7 pop4 where
        "offer_child child1 p1 p2 (?pop2\<lparr>collisionSet := shared2\<rparr>) g6 = Return (pop3, g7)"
        and "offer_child child2 p2 p1 pop3 g7 = Return (pop4, g')"
        and "pop' = refresh_fittest p1 p2 pop4"
        by (rule crossover_offspring_Return)
      with p1 p2 show thesis by (intro full) simp_all
    qed
  qed
qed

lemma refresh_fittest_facts:
  "individuals (refresh_fittest p1 p2 pop) = individuals pop"
  "setOfConformations (refresh_fittest p1 p2 pop) = setOfConformations pop"
  "size_p (refresh_fittest p1 p2 pop) = size_p pop"
  "theFittest (refresh_fittest p1 p2 pop) \<in> {theFittest pop, p1, p2}"
  "fitness (individuals pop ! theFittest (refresh_fittest p1 p2 pop)) \<le>
     fitness (individuals pop ! theFittest pop)"
  "fitness (individuals pop ! theFittest (refresh_fittest p1 p2 pop)) \<le> fitness (individuals pop ! p1)"
  "fitness (individuals pop ! theFittest (refresh_fittest p1 p2 pop)) \<le> fitness (individuals pop ! p2)"
  by (auto simp: refresh_fittest_def Let_def)

lemma step_replaces_within:
  assumes "p1 < length (individuals pop)" and "p2 < length (individuals pop)"
    and "offer_child child1 p1 p2
           (pop\<lparr>parent1 := a, parent2 := b, collisionSet := shared2\<rparr>) g6 = Return (pop3, g7)"
    and "offer_child child2 p2 p1 pop3 g7 = Return (pop4, g')"
  shows "replaces_within {p1, p2} pop pop4"
proof -
  let ?popA = "pop\<lparr>parent1 := a, parent2 := b, collisionSet := shared2\<rparr>"
  have r0: "replaces_within {p1, p2} pop ?popA"
    by (intro replaces_within_fields) simp_all
  have r1: "replaces_within {p1, p2} ?popA pop3"
    using assms(1,2) by (intro offer_child_replaces_within [OF assms(3)]) simp_all
  have len3: "length (individuals pop3) = length (individuals pop)"
    using r1 by (simp add: replaces_within_def)
  have "replaces_within {p2, p1} pop3 pop4"
    using assms(1,2) len3 by (intro offer_child_replaces_within [OF assms(4)]) simp_all
  then have r2: "replaces_within {p1, p2} pop3 pop4" by (simp add: insert_commute)
  from r0 r1 r2 show ?thesis by (blast intro: replaces_within_trans)
qed

lemma fittest_ok_iff:
  "fittest_ok pop \<longleftrightarrow>
     theFittest pop < length (individuals pop) \<and>
     (\<forall>i < length (individuals pop).
        fitness (individuals pop ! theFittest pop) \<le> fitness (individuals pop ! i))"
  by (simp add: fittest_ok_def getFittest_def list_all_length)

lemma refresh_fittest_ok:
  assumes "fittest_ok pop" and "replaces_within {p1, p2} pop pop4"
    and "p1 < length (individuals pop)" and "p2 < length (individuals pop)"
  shows "fittest_ok (refresh_fittest p1 p2 pop4) \<and>
         fitness (getFittest (refresh_fittest p1 p2 pop4)) \<le> fitness (getFittest pop)"
proof -
  let ?n = "length (individuals pop)"
  let ?t = "theFittest pop"
  let ?t' = "theFittest (refresh_fittest p1 p2 pop4)"
  let ?f = "\<lambda>i. fitness (individuals pop ! i)"
  let ?f4 = "\<lambda>i. fitness (individuals pop4 ! i)"
  have len: "length (individuals pop4) = ?n" and t4: "theFittest pop4 = ?t"
    using assms(2) by (simp_all add: replaces_within_def)
  have ch: "\<And>i. i < ?n \<Longrightarrow> individuals pop4 ! i = individuals pop ! i \<or> (i \<in> {p1, p2} \<and> ?f4 i < ?f i)"
    using assms(2) by (simp add: replaces_within_def list_all_iff)
  have t: "?t < ?n" and least: "\<And>i. i < ?n \<Longrightarrow> ?f ?t \<le> ?f i"
    using assms(1) by (simp_all add: fittest_ok_iff)
  have le: "\<And>i. i < ?n \<Longrightarrow> ?f4 i \<le> ?f i"
    using ch by force
  have t'in: "?t' \<in> {?t, p1, p2}"
    using refresh_fittest_facts(4) [of p1 p2 pop4] t4 by simp
  have t'le: "?f4 ?t' \<le> ?f4 ?t" "?f4 ?t' \<le> ?f4 p1" "?f4 ?t' \<le> ?f4 p2"
    using refresh_fittest_facts(5,6,7) [of pop4 p1 p2] t4 by simp_all
  have t'n: "?t' < ?n" using t'in t assms(3,4) by auto
  have "?f4 ?t' \<le> ?f4 i" if i: "i < ?n" for i
  proof (cases "i \<in> {p1, p2}")
    case True
    with t'le show ?thesis by auto
  next
    case False
    with ch [OF i] have "?f4 i = ?f i" by auto
    moreover have "?f ?t \<le> ?f i" using i by (rule least)
    moreover have "?f4 ?t \<le> ?f ?t" using t by (rule le)
    ultimately show ?thesis using t'le(1) by linarith
  qed
  then have ok: "fittest_ok (refresh_fittest p1 p2 pop4)"
    using t'n len by (simp add: fittest_ok_iff refresh_fittest_facts(1))
  have "?f4 ?t' \<le> ?f ?t" using t'le(1) le [OF t] by linarith
  then have "fitness (getFittest (refresh_fittest p1 p2 pop4)) \<le> fitness (getFittest pop)"
    by (simp add: getFittest_def refresh_fittest_facts(1))
  with ok show ?thesis by simp
qed

lemma fittest_ok_step:
  assumes "Population_crossover pop g = Return (pop', g')" and "fittest_ok pop"
  shows "fittest_ok pop' \<and> fitness (getFittest pop') \<le> fitness (getFittest pop)"
  using assms(1)
proof (cases rule: Population_crossover_Return)
  case (skip1 p1)
  with assms(2) show ?thesis by (simp add: fittest_ok_def getFittest_def)
next
  case (skip2 p1 p2)
  with assms(2) show ?thesis by (simp add: fittest_ok_def getFittest_def)
next
  case (full p1 p2 child1 child2 shared2 g6 pop3 g7 pop4)
  have "replaces_within {p1, p2} pop pop4"
    using full(1,2,3,4) by (rule step_replaces_within)
  with assms(2) full(1,2,5) show ?thesis
    by (simp add: refresh_fittest_ok)
qed

lemma population_ok_fields:
  assumes "population_ok pop" and "individuals pop' = individuals pop"
    and "size_p pop' = size_p pop" and "setOfConformations pop' = setOfConformations pop"
  shows "population_ok pop'"
  using assms by (simp add: population_ok_def)

lemma population_ok_step:
  assumes "Population_crossover pop g = Return (pop', g')" and "population_ok pop"
  shows "population_ok pop'"
  using assms(1)
proof (cases rule: Population_crossover_Return)
  case (skip1 p1)
  with assms(2) show ?thesis by (simp add: population_ok_def)
next
  case (skip2 p1 p2)
  with assms(2) show ?thesis by (simp add: population_ok_def)
next
  case (full p1 p2 child1 child2 shared2 g6 pop3 g7 pop4)
  let ?popA = "pop\<lparr>parent1 := Some p1, parent2 := Some p2, collisionSet := shared2\<rparr>"
  have a: "population_ok ?popA"
    by (rule population_ok_fields [OF assms(2)]) simp_all
  have ok3: "population_ok pop3"
    using full(3) a full(1,2) by (intro population_ok_offer_child [OF full(3)]) simp_all
  have len3: "length (individuals pop3) = length (individuals pop)"
    using offer_child_replaces_within [OF full(3)] full(1,2) by (simp add: replaces_within_def)
  have ok4: "population_ok pop4"
    using ok3 full(1,2) len3 by (intro population_ok_offer_child [OF full(4)]) simp_all
  show ?thesis
    unfolding full(5)
    by (rule population_ok_fields [OF ok4]) (simp_all add: refresh_fittest_facts)
qed

lemma index_grows_step:
  assumes "Population_crossover pop g = Return (pop', g')"
  shows "setOfConformations pop \<subseteq> setOfConformations pop' \<and>
         length (individuals pop') = length (individuals pop) \<and> size_p pop' = size_p pop"
  using assms
proof (cases rule: Population_crossover_Return)
  case (skip1 p1)
  then show ?thesis by simp
next
  case (skip2 p1 p2)
  then show ?thesis by simp
next
  case (full p1 p2 child1 child2 shared2 g6 pop3 g7 pop4)
  have "replaces_within {p1, p2} pop pop4"
    using full(1,2,3,4) by (rule step_replaces_within)
  then show ?thesis
    unfolding full(5) by (simp add: replaces_within_def refresh_fittest_facts)
qed

section \<open>The constructor of a population\<close>

lemma generateRandomConformation_repair_valid:
  "generateRandomConformation_repair fuel c shared g = Return (c', shared', g') \<Longrightarrow>
   (validState c \<Longrightarrow> self_avoiding c) \<Longrightarrow> validState c' \<and> self_avoiding c'"
proof (induction fuel arbitrary: c shared g)
  case 0
  then show ?case by (cases "validState c") simp_all
next
  case (Suc fuel)
  show ?case
  proof (cases "validState c")
    case True
    with Suc.prems show ?thesis by simp
  next
    case False
    obtain c1 g1 where m: "mutate (1 / 10) c g = Return (c1, g1)"
      using Suc.prems(1) False by (cases "mutate (1 / 10) c g") auto
    obtain c2 shared2 where cv: "calcValidity c1 shared = Return (c2, shared2)"
      using Suc.prems(1) False m by (cases "calcValidity c1 shared") auto
    have r: "generateRandomConformation_repair fuel c2 shared2 g1 = Return (c', shared', g')"
      using Suc.prems(1) False m cv by simp
    show ?thesis
      by (rule Suc.IH [OF r]) (rule calcValidity_self_avoiding [OF cv])
  qed
qed

lemma generateRandomConformation_valid:
  assumes "generateRandomConformation fuel c True shared g = Return (c', shared', g')"
  shows "validState c' \<and> self_avoiding c'"
proof -
  obtain enc g1 where sd:
    "generateRandomConformation_seed [0..<length_c c - 2] (encoding c) g = Return (enc, g1)"
    using assms
    by (cases "generateRandomConformation_seed [0..<length_c c - 2] (encoding c) g")
      (auto simp: generateRandomConformation_def)
  obtain c2 shared2 where cv: "calcValidity (c\<lparr>encoding := enc\<rparr>) shared = Return (c2, shared2)"
    using assms sd
    by (cases "calcValidity (c\<lparr>encoding := enc\<rparr>) shared")
      (auto simp: generateRandomConformation_def Let_def)
  have r: "generateRandomConformation_repair fuel c2 shared2 g1 = Return (c', shared', g')"
    using assms sd cv by (simp add: generateRandomConformation_def Let_def)
  show ?thesis
    by (rule generateRandomConformation_repair_valid [OF r]) (rule calcValidity_self_avoiding [OF cv])
qed

lemma Conformation_init_valid:
  assumes "Conformation_init k (Some prot) True shared g = Return (temp, shared1, g1)"
  shows "validState temp \<and> self_avoiding temp"
  using assms generateRandomConformation_valid
  by (simp add: Conformation_init_def Let_def)

lemma candidate_member_ok:
  assumes "Conformation_init k (Some prot) True shared g = Return (temp, shared1, g1)"
    and "calcFitness temp = Return temp1" and "fitness temp1 \<noteq> 0"
  shows "member_ok temp1"
proof -
  from calcFitness_Return [OF assms(2)] obtain f where f: "f \<le> 0" "temp1 = temp\<lparr>fitness := f\<rparr>"
    by blast
  with Conformation_init_valid [OF assms(1)] assms(3) show ?thesis
    by (auto simp: member_ok_def self_avoiding_def)
qed

lemma Population_init_loop_invariant:
  "Population_init_loop fuel k i size' prot shared seen inds g = Return (shared', seen', inds', g') \<Longrightarrow>
   list_all member_ok inds \<Longrightarrow> distinct (map getConformationString inds) \<Longrightarrow>
   getConformationString ` set inds \<subseteq> seen \<Longrightarrow> int (length inds) = i \<Longrightarrow>
   list_all member_ok inds' \<and> distinct (map getConformationString inds') \<and>
   getConformationString ` set inds' \<subseteq> seen' \<and> int (length inds') = max i size'"
proof (induction fuel arbitrary: i shared seen inds g)
  case 0
  then show ?case by (cases "i < size'") simp_all
next
  case (Suc fuel)
  show ?case
  proof (cases "i < size'")
    case False
    with Suc.prems show ?thesis by simp
  next
    case True
    obtain temp shared1 g1 where ci:
      "Conformation_init k (Some prot) True shared g = Return (temp, shared1, g1)"
      using Suc.prems(1) True by (cases "Conformation_init k (Some prot) True shared g") auto
    obtain temp1 where cf: "calcFitness temp = Return temp1"
      using Suc.prems(1) True ci by (cases "calcFitness temp") auto
    show ?thesis
    proof (cases "fitness temp1 \<noteq> 0 \<and> getConformationString temp1 \<notin> seen")
      case False
      then have r: "Population_init_loop fuel k i size' prot shared1 seen inds g1 =
          Return (shared', seen', inds', g')"
        using Suc.prems(1) True ci cf by auto
      from Suc.IH [OF r Suc.prems(2,3,4,5)] show ?thesis .
    next
      case admit: True
      then have r: "Population_init_loop fuel k (i + 1) size' prot shared1
          (insert (getConformationString temp1) seen) (inds @ [temp1]) g1 =
          Return (shared', seen', inds', g')"
        using Suc.prems(1) True ci cf by auto
      have ok: "member_ok temp1" using ci cf admit by (intro candidate_member_ok) simp_all
      have new: "getConformationString temp1 \<notin> getConformationString ` set inds"
        using admit Suc.prems(4) by auto
      have a: "list_all member_ok (inds @ [temp1])" using Suc.prems(2) ok by simp
      have b: "distinct (map getConformationString (inds @ [temp1]))"
        using Suc.prems(3) new by simp
      have c: "getConformationString ` set (inds @ [temp1]) \<subseteq>
          insert (getConformationString temp1) seen"
        using Suc.prems(4) by auto
      have d: "int (length (inds @ [temp1])) = i + 1" using Suc.prems(5) by simp
      from Suc.IH [OF r a b c d] True show ?thesis by simp
    qed
  qed
qed

lemma setFittest_loop_least:
  "setFittest_loop js inds best \<in> set (best # js) \<and>
   (\<forall>j \<in> set (best # js). fitness (inds ! setFittest_loop js inds best) \<le> fitness (inds ! j))"
proof (induction js arbitrary: best)
  case Nil
  then show ?case by simp
next
  case (Cons j js)
  let ?b = "if fitness (inds ! j) < fitness (inds ! best) then j else best"
  from Cons.IH [of ?b]
  have in_set: "setFittest_loop js inds ?b \<in> set (?b # js)"
    and least: "\<forall>i \<in> set (?b # js). fitness (inds ! setFittest_loop js inds ?b) \<le> fitness (inds ! i)"
    by blast+
  from least have "fitness (inds ! setFittest_loop js inds ?b) \<le> fitness (inds ! ?b)"
    by simp
  then have "fitness (inds ! setFittest_loop js inds ?b) \<le> fitness (inds ! j)"
    and "fitness (inds ! setFittest_loop js inds ?b) \<le> fitness (inds ! best)"
    by (auto split: if_splits)
  with in_set least show ?case
    by (auto split: if_splits)
qed

lemma setFittest_ok:
  assumes "theFittest pop < length (individuals pop)"
  shows "fittest_ok (setFittest pop)"
proof -
  let ?n = "length (individuals pop)"
  let ?t = "setFittest_loop [0..<?n] (individuals pop) (theFittest pop)"
  from setFittest_loop_least [of "[0..<?n]" "individuals pop" "theFittest pop"]
  have a: "?t \<in> set (theFittest pop # [0..<?n])"
    and b: "\<forall>j \<in> set (theFittest pop # [0..<?n]).
      fitness (individuals pop ! ?t) \<le> fitness (individuals pop ! j)"
    by blast+
  from a assms have "?t < ?n" by auto
  moreover from b have "\<forall>i < ?n. fitness (individuals pop ! ?t) \<le> fitness (individuals pop ! i)"
    by simp
  ultimately show ?thesis
    by (simp add: fittest_ok_iff setFittest_def)
qed

lemma Population_init_Return:
  assumes "Population_init fuel size' prot mp cp g = Return (pop, g')"
  shows "population_ok pop \<and> fittest_ok pop \<and> size_p pop = size'"
proof -
  obtain shared seen inds g1 where lp:
    "Population_init_loop fuel fuel 0 size' prot {} {} [] g = Return (shared, seen, inds, g1)"
    using assms
    by (cases "Population_init_loop fuel fuel 0 size' prot {} {} [] g")
      (auto simp: Population_init_def)
  have ne: "0 < length inds"
    using assms lp by (cases inds) (auto simp: Population_init_def getItem_def)
  let ?pop0 = "\<lparr>parent1 = None, parent2 = None, mutProb = mp, crossProb = cp,
      protein_p = prot, size_p = size', collisionSet = shared,
      setOfConformations = seen, individuals = inds, theFittest = 0\<rparr>"
  have pop: "pop = setFittest ?pop0"
    using assms lp ne by (simp add: Population_init_def getItem_def)
  from Population_init_loop_invariant [OF lp]
  have inv: "list_all member_ok inds" "distinct (map getConformationString inds)"
    "getConformationString ` set inds \<subseteq> seen" "int (length inds) = max 0 size'"
    by simp_all
  from inv(4) ne have len: "int (length inds) = size'" by linarith
  have "population_ok pop"
    using inv(1,2,3) len by (simp add: pop population_ok_def setFittest_def)
  moreover have "fittest_ok pop"
    unfolding pop using ne by (intro setFittest_ok) simp
  moreover have "size_p pop = size'" by (simp add: pop setFittest_def)
  ultimately show ?thesis by simp
qed

lemma crossover_calls_population_ok:
  "crossover_calls n pop g = Return (pop', g') \<Longrightarrow> population_ok pop \<Longrightarrow>
   population_ok pop' \<and> size_p pop' = size_p pop"
proof (induction n arbitrary: pop g)
  case 0
  then show ?case by simp
next
  case (Suc n)
  obtain pop1 g1 where st: "Population_crossover pop g = Return (pop1, g1)"
    using Suc.prems(1) by (cases "Population_crossover pop g") auto
  have r: "crossover_calls n pop1 g1 = Return (pop', g')"
    using Suc.prems(1) st by simp
  have ok1: "population_ok pop1" using st Suc.prems(2) by (rule population_ok_step)
  have "size_p pop1 = size_p pop" using index_grows_step [OF st] by simp
  with Suc.IH [OF r ok1] show ?case by simp
qed

lemma crossover_calls_fittest_ok:
  "crossover_calls n pop g = Return (pop', g') \<Longrightarrow> fittest_ok pop \<Longrightarrow>
   fittest_ok pop' \<and> fitness (getFittest pop') \<le> fitness (getFittest pop)"
proof (induction n arbitrary: pop g)
  case 0
  then show ?case by simp
next
  case (Suc n)
  obtain pop1 g1 where st: "Population_crossover pop g = Return (pop1, g1)"
    using Suc.prems(1) by (cases "Population_crossover pop g") auto
  have r: "crossover_calls n pop1 g1 = Return (pop', g')"
    using Suc.prems(1) st by simp
  from fittest_ok_step [OF st Suc.prems(2)]
  have ok1: "fittest_ok pop1" and le1: "fitness (getFittest pop1) \<le> fitness (getFittest pop)"
    by simp_all
  from Suc.IH [OF r ok1] le1 show ?case by simp
qed

section \<open>The children of a step and their owners\<close>

lemma tournamentSelect_parent1:
  "tournamentSelect k (pop\<lparr>parent1 := x\<rparr>) g = tournamentSelect k pop g"
proof -
  have h: "individuals (pop\<lparr>parent1 := x\<rparr>) = individuals pop" by simp
  show ?thesis unfolding tournamentSelect_def h by (rule refl)
qed

lemma length_spec_place: "length (spec_place c own other inds) = length inds"
  by (simp add: spec_place_def)

lemma offer_child_spec:
  assumes "offer_child child own other pop g = Return (pop', g')"
  shows "\<exists>mc sh. mutated_child (mutProb pop) child (collisionSet pop) g = Return (mc, sh, g') \<and>
           (individuals pop', setOfConformations pop') =
             spec_treat mc own other (individuals pop, setOfConformations pop) \<and>
           collisionSet pop' = sh \<and> mutProb pop' = mutProb pop \<and>
           parent1 pop' = parent1 pop \<and> parent2 pop' = parent2 pop \<and>
           theFittest pop' = theFittest pop"
proof -
  obtain c1 g1 where m: "mutate (mutProb pop) child g = Return (c1, g1)"
    using assms by (cases "mutate (mutProb pop) child g") (auto simp: offer_child_def)
  obtain c2 shared where cv: "calcValidity c1 (collisionSet pop) = Return (c2, shared)"
    using assms m by (cases "calcValidity c1 (collisionSet pop)") (auto simp: offer_child_def)
  show ?thesis
  proof (cases "validState c2")
    case False
    have mcd: "mutated_child (mutProb pop) child (collisionSet pop) g = Return (None, shared, g1)"
      using m cv False by (simp add: mutated_child_def)
    have "pop' = pop\<lparr>collisionSet := shared\<rparr>" and "g' = g1"
      using assms m cv False by (simp_all add: offer_child_def Let_def)
    with mcd show ?thesis
      by (intro exI [of _ None] exI [of _ shared]) (simp add: spec_treat_def)
  next
    case True
    obtain c3 where cf: "calcFitness c2 = Return c3"
      using assms m cv True by (cases "calcFitness c2") (auto simp: offer_child_def Let_def)
    have mcd: "mutated_child (mutProb pop) child (collisionSet pop) g = Return (Some c3, shared, g1)"
      using m cv True cf by (simp add: mutated_child_def)
    have r: "(case isInsertable c3 (pop\<lparr>collisionSet := shared\<rparr>) of
        (ok, pop2) \<Rightarrow> Return (if ok then replace_parent c3 own other pop2 else pop2, g1)) =
        Return (pop', g')"
      using assms m cv True cf by (simp add: offer_child_def Let_def)
    show ?thesis
    proof (cases "getConformationString c3 \<in> setOfConformations pop")
      case True
      with r have "pop' = pop\<lparr>collisionSet := shared\<rparr>" and "g' = g1"
        by (simp_all add: isInsertable_def Let_def)
      with mcd True show ?thesis
        by (intro exI [of _ "Some c3"] exI [of _ shared]) (simp add: spec_treat_def)
    next
      case False
      with r have p: "pop' = replace_parent c3 own other
          (pop\<lparr>collisionSet := shared,
               setOfConformations := insert (getConformationString c3) (setOfConformations pop)\<rparr>)"
        and "g' = g1"
        by (simp_all add: isInsertable_def Let_def)
      with mcd False show ?thesis
        by (intro exI [of _ "Some c3"] exI [of _ shared])
          (simp add: spec_treat_def spec_place_def replace_parent_def)
    qed
  qed
qed

lemma crossover_offspring_children:
  assumes "crossover_offspring p1 p2 pop g = Return (pop', g')"
  shows "\<exists>child1 shared1 g1 child2 shared2 g2 pop3 g3 pop4.
           Conformation_crossover (individuals pop ! p1) (individuals pop ! p2) True
             (collisionSet pop) g = Return (child1, shared1, g1) \<and>
           Conformation_crossover (individuals pop ! p2) (individuals pop ! p1) True
             shared1 g1 = Return (child2, shared2, g2) \<and>
           offer_child child1 p1 p2 (pop\<lparr>collisionSet := shared2\<rparr>) g2 = Return (pop3, g3) \<and>
           offer_child child2 p2 p1 pop3 g3 = Return (pop4, g') \<and>
           pop' = refresh_fittest p1 p2 pop4"
proof -
  obtain child1 shared1 g1 where c1:
    "Conformation_crossover (individuals pop ! p1) (individuals pop ! p2) True (collisionSet pop) g =
       Return (child1, shared1, g1)"
    using assms
    by (cases "Conformation_crossover (individuals pop ! p1) (individuals pop ! p2) True
          (collisionSet pop) g") (auto simp: crossover_offspring_def)
  obtain child2 shared2 g2 where c2:
    "Conformation_crossover (individuals pop ! p2) (individuals pop ! p1) True shared1 g1 =
       Return (child2, shared2, g2)"
    using assms c1
    by (cases "Conformation_crossover (individuals pop ! p2) (individuals pop ! p1) True shared1 g1")
      (auto simp: crossover_offspring_def)
  obtain pop3 g3 where o1:
    "offer_child child1 p1 p2 (pop\<lparr>collisionSet := shared2\<rparr>) g2 = Return (pop3, g3)"
    using assms c1 c2
    by (cases "offer_child child1 p1 p2 (pop\<lparr>collisionSet := shared2\<rparr>) g2")
      (auto simp: crossover_offspring_def)
  obtain pop4 g4 where o2: "offer_child child2 p2 p1 pop3 g3 = Return (pop4, g4)"
    using assms c1 c2 o1
    by (cases "offer_child child2 p2 p1 pop3 g3") (auto simp: crossover_offspring_def)
  have e: "pop' = refresh_fittest p1 p2 pop4" "g4 = g'"
    using assms c1 c2 o1 o2 by (simp_all add: crossover_offspring_def)
  have o2': "offer_child child2 p2 p1 pop3 g3 = Return (pop4, g')" using o2 e(2) by simp
  show ?thesis
    by (intro exI [of _ child1] exI [of _ shared1] exI [of _ g1] exI [of _ child2]
        exI [of _ shared2] exI [of _ g2] exI [of _ pop3] exI [of _ g3] exI [of _ pop4]
        conjI c1 c2 o1 o2' e(1))
qed

lemma refresh_fittest_parents:
  "parent1 (refresh_fittest p1 p2 pop) = parent1 pop"
  "parent2 (refresh_fittest p1 p2 pop) = parent2 pop"
  by (simp_all add: refresh_fittest_def Let_def)

lemma length_spec_treat:
  "length (fst (spec_treat mc own other st)) = length (fst st)"
  by (cases mc) (simp_all add: spec_treat_def length_spec_place)

lemma covers_spec_treat:
  assumes "getConformationString ` set (fst st) \<subseteq> snd st"
  shows "getConformationString ` set (fst (spec_treat mc own other st)) \<subseteq>
           snd (spec_treat mc own other st) \<and>
         snd st \<subseteq> snd (spec_treat mc own other st)"
proof (cases mc)
  case None
  with assms show ?thesis by (simp add: spec_treat_def)
next
  case (Some c)
  have u: "\<And>i. set ((fst st)[i := c]) \<subseteq> insert c (set (fst st))"
    by (rule set_update_subset_insert)
  have "getConformationString ` set (spec_place c own other (fst st)) \<subseteq>
      insert (getConformationString c) (snd st)"
    using assms u [of own] u [of other] by (auto simp: spec_place_def)
  with assms Some show ?thesis by (auto simp: spec_treat_def)
qed

lemma covers_offer_child:
  assumes "offer_child child own other pop g = Return (pop', g')"
    and "getConformationString ` set (individuals pop) \<subseteq> setOfConformations pop"
  shows "getConformationString ` set (individuals pop') \<subseteq> setOfConformations pop' \<and>
         setOfConformations pop \<subseteq> setOfConformations pop'"
proof -
  from offer_child_spec [OF assms(1)] obtain mc where
    e: "(individuals pop', setOfConformations pop') =
      spec_treat mc own other (individuals pop, setOfConformations pop)"
    by blast
  have i: "individuals pop' = fst (spec_treat mc own other (individuals pop, setOfConformations pop))"
    and s: "setOfConformations pop' = snd (spec_treat mc own other (individuals pop, setOfConformations pop))"
    using arg_cong [OF e, of fst] arg_cong [OF e, of snd] by simp_all
  from covers_spec_treat [of "(individuals pop, setOfConformations pop)" mc own other] assms(2)
  show ?thesis unfolding i s by simp
qed

lemma covers_step:
  assumes "Population_crossover pop g = Return (pop', g')"
    and "getConformationString ` set (individuals pop) \<subseteq> setOfConformations pop"
  shows "getConformationString ` set (individuals pop') \<subseteq> setOfConformations pop'"
  using assms(1)
proof (cases rule: Population_crossover_Return)
  case (skip1 p1)
  with assms(2) show ?thesis by simp
next
  case (skip2 p1 p2)
  with assms(2) show ?thesis by simp
next
  case (full p1 p2 child1 child2 shared2 g6 pop3 g7 pop4)
  have "getConformationString ` set (individuals pop3) \<subseteq> setOfConformations pop3"
    using covers_offer_child [OF full(3)] assms(2) by simp
  then have "getConformationString ` set (individuals pop4) \<subseteq> setOfConformations pop4"
    using covers_offer_child [OF full(4)] by simp
  then show ?thesis
    unfolding full(5) by (simp add: refresh_fittest_facts)
qed

section \<open>Properties of a population\<close>

text \<open>
  C4. When the constructor returns, and after any number of calls of \<open>crossover\<close> that
  return, the population holds exactly \<open>size\<close> individuals, each flagged valid with a
  self-avoiding walk and a negative fitness, and no two with the same encoding string.
\<close>

theorem population_invariant:
  assumes "Population_init fuel size' prot mp cp g = Return (pop, g1)"
    and "crossover_calls n pop g1 = Return (pop', g2)"
  shows "int (length (individuals pop')) = size' \<and>
         list_all (\<lambda>c. validState c \<and> self_avoiding c \<and> fitness c \<noteq> 0 \<and> fitness c < 0)
           (individuals pop') \<and>
         distinct (map getConformationString (individuals pop'))"
proof -
  from Population_init_Return [OF assms(1)]
  have ok: "population_ok pop" and sz: "size_p pop = size'" by simp_all
  from crossover_calls_population_ok [OF assms(2) ok] sz
  have "population_ok pop'" and "size_p pop' = size'" by simp_all
  then show ?thesis
    by (auto simp: population_ok_def member_ok_def list_all_iff)
qed

lemma example_init:
  "Population_init 3 3 ''BWWBWB'' (1 / 20) (7 / 10) (example_init_draws @ example_improving_draws) =
     Return (example_population, example_improving_draws)"
  by code_simp

lemma example_improving_step:
  "Population_crossover example_population example_improving_draws =
     Return (example_population_improved, [])"
  by code_simp

lemma example_equal_step:
  "Population_crossover example_population example_equal_draws =
     Return (example_population_equal, [])"
  by code_simp

theorem population_invariant_witness:
  "Population_init 3 3 ''BWWBWB'' (1 / 20) (7 / 10) (example_init_draws @ example_improving_draws) =
     Return (example_population, example_improving_draws) \<and>
   crossover_calls 1 example_population example_improving_draws =
     Return (example_population_improved, []) \<and>
   length (individuals example_population_improved) = 3 \<and>
   distinct (map getConformationString (individuals example_population_improved))"
proof -
  have s: "crossover_calls 1 example_population example_improving_draws =
      Return (example_population_improved, [])"
    by (simp add: example_improving_step)
  from population_invariant [OF example_init s] example_init s show ?thesis
    by simp
qed

text \<open>
  C10. When the constructor returns, and after any number of calls of \<open>crossover\<close> that
  return, the tracked fittest member is one of the current individuals and no individual
  has a lower fitness; over any further calls its fitness does not increase.
\<close>

theorem fittest_invariant:
  assumes "Population_init fuel size' prot mp cp g = Return (pop, g1)"
    and "crossover_calls m pop g1 = Return (pop1, g2)"
    and "crossover_calls n pop1 g2 = Return (pop2, g3)"
  shows "theFittest pop2 < length (individuals pop2) \<and>
         getFittest pop2 \<in> set (individuals pop2) \<and>
         list_all (\<lambda>c. fitness (getFittest pop2) \<le> fitness c) (individuals pop2) \<and>
         fitness (getFittest pop2) \<le> fitness (getFittest pop1)"
proof -
  from Population_init_Return [OF assms(1)] have "fittest_ok pop" by simp
  with crossover_calls_fittest_ok [OF assms(2)] have ok1: "fittest_ok pop1" by simp
  from crossover_calls_fittest_ok [OF assms(3) ok1]
  have ok2: "fittest_ok pop2" and le: "fitness (getFittest pop2) \<le> fitness (getFittest pop1)"
    by simp_all
  from ok2 have "theFittest pop2 < length (individuals pop2)"
    and "list_all (\<lambda>c. fitness (getFittest pop2) \<le> fitness c) (individuals pop2)"
    by (simp_all add: fittest_ok_def)
  moreover from this(1) have "getFittest pop2 \<in> set (individuals pop2)"
    by (simp add: getFittest_def)
  ultimately show ?thesis using le by simp
qed

theorem fittest_invariant_witness:
  "crossover_calls 0 example_population example_improving_draws =
     Return (example_population, example_improving_draws) \<and>
   crossover_calls 1 example_population example_improving_draws =
     Return (example_population_improved, []) \<and>
   getFittest example_population_improved \<in> set (individuals example_population_improved) \<and>
   fitness (getFittest example_population_improved) \<le> fitness (getFittest example_population)"
proof -
  have s0: "crossover_calls 0 example_population example_improving_draws =
      Return (example_population, example_improving_draws)"
    by simp
  have s1: "crossover_calls 1 example_population example_improving_draws =
      Return (example_population_improved, [])"
    by (simp add: example_improving_step)
  from fittest_invariant [OF example_init s0 s1] s0 s1 show ?thesis by simp
qed

text \<open>
  C6, as the code has it. In a generation step that passes both crossover gates, with
  \<open>parent1\<close> the first member selected and \<open>parent2\<close> the second, child1 is the
  crossover of \<open>(parent1, parent2)\<close> and child2 that of \<open>(parent2, parent1)\<close>. Each is
  mutated and checked; a valid child whose encoding string is not in the index is
  registered there and replaces the parent that owns it (parent1 for child1, parent2 for
  child2) when its fitness is strictly lower than that parent's, else the other parent
  when strictly lower than that one's, else nobody. Child1 is treated first, child2 on
  the result. At most one member changes per child and the member count stays. A child
  whose fitness equals a parent's does not replace it.
\<close>

theorem crossover_replaces_strictly_worse_parent:
  assumes "tournamentSelect 3 pop g = Return (p1, g1)"
    and "random_random g1 = Return (r1, g2)" and "\<not> crossProb pop < r1"
    and "tournamentSelect 3 pop g2 = Return (p2, g3)"
    and "random_random g3 = Return (r2, g4)" and "\<not> crossProb pop < r2"
    and "Population_crossover pop g = Return (pop', g')"
  shows "\<exists>child1 shared1 g5 child2 shared2 g6 mc1 shared3 g7 mc2 shared4.
           Conformation_crossover (individuals pop ! p1) (individuals pop ! p2) True
             (collisionSet pop) g4 = Return (child1, shared1, g5) \<and>
           Conformation_crossover (individuals pop ! p2) (individuals pop ! p1) True
             shared1 g5 = Return (child2, shared2, g6) \<and>
           mutated_child (mutProb pop) child1 shared2 g6 = Return (mc1, shared3, g7) \<and>
           mutated_child (mutProb pop) child2 shared3 g7 = Return (mc2, shared4, g') \<and>
           (individuals pop', setOfConformations pop') =
             spec_treat mc2 p2 p1
               (spec_treat mc1 p1 p2 (individuals pop, setOfConformations pop)) \<and>
           length (individuals pop') = length (individuals pop) \<and>
           parent1 pop' = Some p1 \<and> parent2 pop' = Some p2"
proof -
  let ?pop2 = "pop\<lparr>parent1 := Some p1, parent2 := Some p2\<rparr>"
  have off: "crossover_offspring p1 p2 ?pop2 g4 = Return (pop', g')"
    using assms by (simp add: Population_crossover_def Let_def tournamentSelect_parent1)
  from crossover_offspring_children [OF off]
  obtain child1 shared1 g5 child2 shared2 g6 pop3 g7 pop4 where
    c1: "Conformation_crossover (individuals ?pop2 ! p1) (individuals ?pop2 ! p2) True
           (collisionSet ?pop2) g4 = Return (child1, shared1, g5)"
    and c2: "Conformation_crossover (individuals ?pop2 ! p2) (individuals ?pop2 ! p1) True
           shared1 g5 = Return (child2, shared2, g6)"
    and o1: "offer_child child1 p1 p2 (?pop2\<lparr>collisionSet := shared2\<rparr>) g6 = Return (pop3, g7)"
    and o2: "offer_child child2 p2 p1 pop3 g7 = Return (pop4, g')"
    and p': "pop' = refresh_fittest p1 p2 pop4"
    by blast
  from offer_child_spec [OF o1] obtain mc1 shared3 where
    m1: "mutated_child (mutProb (?pop2\<lparr>collisionSet := shared2\<rparr>)) child1
           (collisionSet (?pop2\<lparr>collisionSet := shared2\<rparr>)) g6 = Return (mc1, shared3, g7)"
    and e1: "(individuals pop3, setOfConformations pop3) =
           spec_treat mc1 p1 p2 (individuals (?pop2\<lparr>collisionSet := shared2\<rparr>),
             setOfConformations (?pop2\<lparr>collisionSet := shared2\<rparr>))"
    and f3: "collisionSet pop3 = shared3" "mutProb pop3 = mutProb (?pop2\<lparr>collisionSet := shared2\<rparr>)"
      "parent1 pop3 = parent1 (?pop2\<lparr>collisionSet := shared2\<rparr>)"
      "parent2 pop3 = parent2 (?pop2\<lparr>collisionSet := shared2\<rparr>)"
    by blast
  from offer_child_spec [OF o2] obtain mc2 shared4 where
    m2: "mutated_child (mutProb pop3) child2 (collisionSet pop3) g7 = Return (mc2, shared4, g')"
    and e2: "(individuals pop4, setOfConformations pop4) =
           spec_treat mc2 p2 p1 (individuals pop3, setOfConformations pop3)"
    and f4: "parent1 pop4 = parent1 pop3" "parent2 pop4 = parent2 pop3"
    by blast
  have a1: "Conformation_crossover (individuals pop ! p1) (individuals pop ! p2) True
      (collisionSet pop) g4 = Return (child1, shared1, g5)"
    using c1 by simp
  have a2: "Conformation_crossover (individuals pop ! p2) (individuals pop ! p1) True
      shared1 g5 = Return (child2, shared2, g6)"
    using c2 by simp
  have a3: "mutated_child (mutProb pop) child1 shared2 g6 = Return (mc1, shared3, g7)"
    using m1 by simp
  have a4: "mutated_child (mutProb pop) child2 shared3 g7 = Return (mc2, shared4, g')"
    using m2 f3 by simp
  have e1': "(individuals pop3, setOfConformations pop3) =
      spec_treat mc1 p1 p2 (individuals pop, setOfConformations pop)"
    using e1 by simp
  have a5: "(individuals pop', setOfConformations pop') =
      spec_treat mc2 p2 p1 (spec_treat mc1 p1 p2 (individuals pop, setOfConformations pop))"
    using e2 unfolding e1' p' by (simp add: refresh_fittest_facts)
  have "length (individuals pop') =
      length (fst (spec_treat mc2 p2 p1 (spec_treat mc1 p1 p2 (individuals pop, setOfConformations pop))))"
    using arg_cong [OF a5, of fst] by simp
  then have a6: "length (individuals pop') = length (individuals pop)"
    by (simp add: length_spec_treat)
  have a7: "parent1 pop' = Some p1" and a8: "parent2 pop' = Some p2"
    using f3 f4 by (simp_all add: p' refresh_fittest_parents)
  show ?thesis
    by (intro exI [of _ child1] exI [of _ shared1] exI [of _ g5] exI [of _ child2]
        exI [of _ shared2] exI [of _ g6] exI [of _ mc1] exI [of _ shared3] exI [of _ g7]
        exI [of _ mc2] exI [of _ shared4] conjI a1 a2 a3 a4 a5 a6 a7 a8)
qed

theorem crossover_replaces_strictly_worse_parent_witness:
  "\<exists>mc1 mc2.
     (individuals example_population_improved, setOfConformations example_population_improved) =
       spec_treat mc2 1 0
         (spec_treat mc1 0 1 (individuals example_population, setOfConformations example_population)) \<and>
     length (individuals example_population_improved) = length (individuals example_population) \<and>
     parent1 example_population_improved = Some 0 \<and>
     parent2 example_population_improved = Some 1"
proof -
  have t1: "tournamentSelect 3 example_population example_improving_draws =
      Return (0, drop 1 example_improving_draws)"
    by code_simp
  have f1: "random_random (drop 1 example_improving_draws) =
      Return (0, drop 2 example_improving_draws)"
    by code_simp
  have n1: "\<not> crossProb example_population < 0" by code_simp
  have t2: "tournamentSelect 3 example_population (drop 2 example_improving_draws) =
      Return (1, drop 3 example_improving_draws)"
    by code_simp
  have f2: "random_random (drop 3 example_improving_draws) =
      Return (0, drop 4 example_improving_draws)"
    by code_simp
  from crossover_replaces_strictly_worse_parent [OF t1 f1 n1 t2 f2 n1 example_improving_step]
  show ?thesis by blast
qed

text \<open>
  The claim as stated fails: in the step below the first child, \<open>LLFR\<close>, is valid, new to
  the index and of fitness \<open>- 1\<close>, the fitness of both its parents, and replaces neither.
\<close>

theorem equal_fitness_child_counterexample:
  "Population_crossover example_population example_equal_draws =
     Return (example_population_equal, []) \<and>
   offer_child example_child_LLFF 0 2
     (example_population\<lparr>parent1 := Some 0, parent2 := Some 2, collisionSet := example_shared\<rparr>)
     example_mutation_draws =
     Return (example_population_equal\<lparr>collisionSet := {(- 2, - 1), (- 1, - 1), (- 1, 0), (- 1, 1), (0, 1), (0, 0)}\<rparr>, []) \<and>
   validState example_LLFR \<and>
   getConformationString example_LLFR \<notin> setOfConformations example_population \<and>
   getConformationString example_LLFR \<in> setOfConformations example_population_equal \<and>
   fitness (individuals example_population ! 0) \<ge> fitness example_LLFR \<and>
   fitness (individuals example_population ! 2) \<ge> fitness example_LLFR \<and>
   individuals example_population_equal = individuals example_population"
  by code_simp

text \<open>
  C9, as the code has it. The index of encoding strings only grows: after a generation
  step every string of the index is still there, so the string of a member displaced in
  the step stays in the index whether or not a remaining member holds it. An index that
  holds the strings of all members before the step holds those of all members after it.
\<close>

theorem index_only_grows:
  assumes "Population_crossover pop g = Return (pop', g')"
    and "getConformationString ` set (individuals pop) \<subseteq> setOfConformations pop"
  shows "setOfConformations pop \<subseteq> setOfConformations pop' \<and>
         getConformationString ` set (individuals pop) \<subseteq> setOfConformations pop' \<and>
         getConformationString ` set (individuals pop') \<subseteq> setOfConformations pop'"
  using index_grows_step [OF assms(1)] covers_step [OF assms] assms(2) by auto

theorem index_only_grows_witness:
  "Population_crossover example_population example_improving_draws =
     Return (example_population_improved, []) \<and>
   setOfConformations example_population \<subseteq> setOfConformations example_population_improved \<and>
   getConformationString ` set (individuals example_population)
     \<subseteq> setOfConformations example_population_improved \<and>
   getConformationString ` set (individuals example_population_improved)
     \<subseteq> setOfConformations example_population_improved"
proof -
  have a: "getConformationString ` set (individuals example_population)
      \<subseteq> setOfConformations example_population"
    by code_simp
  from index_only_grows [OF example_improving_step a] example_improving_step show ?thesis
    by simp
qed

text \<open>
  The claim as stated fails: the step below overwrites member 0, \<open>RRFF\<close>, with the child
  \<open>RRFR\<close>; afterwards no member holds \<open>RRFF\<close> and the string is still in the index.
\<close>

theorem displaced_string_stays_counterexample:
  "Population_crossover example_population example_improving_draws =
     Return (example_population_improved, []) \<and>
   getConformationString (individuals example_population ! 0) = ''RRFF'' \<and>
   individuals example_population_improved ! 0 = example_RRFR \<and>
   ''RRFF'' \<notin> getConformationString ` set (individuals example_population_improved) \<and>
   ''RRFF'' \<in> setOfConformations example_population_improved"
  by code_simp

text \<open>
  C8, as the code has it. No check of the sequence precedes the construction. For a
  sequence of fewer than two residues the constructor raises \<open>IndexError\<close>: from
  \<open>calcAbsolutePositions\<close> on the first candidate when \<open>size\<close> is positive, from the read
  of \<open>individuals[0]\<close> otherwise. It neither returns a population nor runs on: the
  result is the same for every random source and every loop budget that allows the
  first iteration.
\<close>

theorem Population_init_short_sequence:
  assumes "length prot < 2" and "0 < fuel \<or> size' \<le> 0"
  shows "Population_init fuel size' prot mp cp g = Raise IndexError"
proof (cases "0 < size'")
  case False
  then have "Population_init_loop fuel fuel 0 size' prot {} {} [] g = Return ({}, {}, [], g)"
    by (cases fuel) simp_all
  then show ?thesis by (simp add: Population_init_def getItem_def)
next
  case True
  with assms(2) obtain fuel' where fuel: "fuel = Suc fuel'" by (cases fuel) auto
  have sd: "generateRandomConformation_seed [0..<length prot - 2] (replicate (length prot - 2) 0) g =
      Return (replicate (length prot - 2) 0, g)"
    using assms(1) by simp
  have "Conformation_init fuel (Some prot) True {} g = Raise IndexError"
    using assms(1) sd
    by (simp add: Conformation_init_def Let_def getLength_def generateRandomConformation_def
        calcValidity_cases)
  then have "Population_init_loop fuel fuel 0 size' prot {} {} [] g = Raise IndexError"
    using True fuel by simp
  then show ?thesis by (simp add: Population_init_def)
qed

theorem Population_init_short_sequence_witness:
  "Population_init 5 3 ''B'' (1 / 20) (7 / 10) [DInt 1] = Raise IndexError \<and>
   Population_init 0 0 [] (1 / 20) (7 / 10) [] = Raise IndexError"
  using Population_init_short_sequence [of "''B''" 5 3 "1 / 20" "7 / 10" "[DInt 1]"]
    Population_init_short_sequence [of "[]" 0 0 "1 / 20" "7 / 10" "[]"]
  by simp

text \<open>
  The claim as stated fails: the construction on the one-residue sequence \<open>B\<close> ends in
  the \<open>IndexError\<close> of a list write out of range, not in a configuration error raised
  before any work.
\<close>

theorem short_sequence_counterexample:
  "Population_init 1 1 ''B'' (1 / 20) (7 / 10) [] = Raise IndexError \<and>
   Conformation_init 1 (Some ''B'') True {} [] = Raise IndexError \<and>
   calcAbsolutePositions
     \<lparr>protein = Some ''B'', setOfPoints = True, length_c = 1, encoding = [],
      absPositions = [(0, 0)], fitness = 0, generation = 0, validState = False\<rparr> =
     Raise IndexError"
  by code_simp

end
